theory Spec2Isabelle
  imports Main
begin

section \<open>Python strings\<close>

text \<open>
  A Python \<open>str\<close> is modelled as a \<open>string\<close> whose characters are the code points
  below 256.  \<open>isspace\<close> is \<open>str.isspace\<close> on those code points: TAB, LF, VT, FF, CR,
  the separators 0x1C to 0x1F, the space, NEL (0x85) and the no-break space (0xA0).
\<close>

definition LF :: char where
  "LF = CHR 0x0A"

definition CR :: char where
  "CR = CHR 0x0D"

definition DQ :: char where
  "DQ = CHR 0x22"

definition isspace :: "char \<Rightarrow> bool" where
  "isspace c = (let n = (of_char c :: nat) in
     (9 \<le> n \<and> n \<le> 13) \<or> (28 \<le> n \<and> n \<le> 32) \<or> n = 133 \<or> n = 160)"

text \<open>\<open>str.lower\<close> on one code point below 256: A to Z and the capital letters
  0xC0 to 0xDE (the multiplication sign 0xD7 apart) move up by 32.\<close>

definition lower_char :: "char \<Rightarrow> char" where
  "lower_char c = (let n = (of_char c :: nat) in
     if (65 \<le> n \<and> n \<le> 90) \<or> (192 \<le> n \<and> n \<le> 222 \<and> n \<noteq> 215)
     then char_of (n + 32) else c)"

definition lower :: "string \<Rightarrow> string" where
  "lower s = map lower_char s"

text \<open>\<open>s.strip(chars)\<close> and \<open>s.strip()\<close>: the longest prefix and the longest suffix
  made of characters of the set are removed.\<close>

definition strip_with :: "(char \<Rightarrow> bool) \<Rightarrow> string \<Rightarrow> string" where
  "strip_with P s = rev (dropWhile P (rev (dropWhile P s)))"

definition strip :: "string \<Rightarrow> string" where
  "strip s = strip_with isspace s"

definition strip_chars :: "string \<Rightarrow> string \<Rightarrow> string" where
  "strip_chars chars s = strip_with (\<lambda>c. c \<in> set chars) s"

text \<open>\<open>s.startswith(sub)\<close>, \<open>sub in s\<close> and \<open>s.rfind(sub)\<close> (the highest index at which
  \<open>sub\<close> occurs, \<open>None\<close> for Python's -1).\<close>

definition startswith :: "string \<Rightarrow> string \<Rightarrow> bool" where
  "startswith s sub = (take (length sub) s = sub)"

fun contains :: "string \<Rightarrow> string \<Rightarrow> bool" where
  "contains sub [] = (sub = [])"
| "contains sub (c # cs) = (startswith (c # cs) sub \<or> contains sub cs)"

fun rfind :: "string \<Rightarrow> string \<Rightarrow> nat option" where
  "rfind sub [] = (if sub = [] then Some 0 else None)"
| "rfind sub (c # cs) =
     (case rfind sub cs of
        Some i \<Rightarrow> Some (Suc i)
      | None \<Rightarrow> if startswith (c # cs) sub then Some 0 else None)"

text \<open>\<open>s.rsplit(sep, 1)\<close> for a non-empty separator: one split at the last occurrence,
  the whole string alone when the separator does not occur.\<close>

definition rsplit1 :: "string \<Rightarrow> string \<Rightarrow> string list" where
  "rsplit1 sep s =
     (case rfind sep s of
        None \<Rightarrow> [s]
      | Some i \<Rightarrow> [take i s, drop (i + length sep) s])"

text \<open>\<open>s.split(sep)\<close> for a one-character separator, and \<open>sep.join(parts)\<close>.\<close>

fun split_char :: "char \<Rightarrow> string \<Rightarrow> string list" where
  "split_char sep [] = [[]]"
| "split_char sep (c # cs) =
     (if c = sep then [] # split_char sep cs
      else (case split_char sep cs of
              [] \<Rightarrow> [[c]]
            | p # ps \<Rightarrow> (c # p) # ps))"

fun join :: "string \<Rightarrow> string list \<Rightarrow> string" where
  "join sep [] = []"
| "join sep [p] = p"
| "join sep (p # q # ps) = p @ sep @ join sep (q # ps)"

section \<open>Text files\<close>

text \<open>
  A file opened in text mode translates \<open>\r\n\<close> and a lone \<open>\r\<close> to \<open>\n\<close>;
  iterating over it yields the lines, each with its terminating \<open>\n\<close> (the last line has
  none when the file does not end with one).
\<close>

fun translate_newlines :: "string \<Rightarrow> string" where
  "translate_newlines [] = []"
| "translate_newlines [c] = (if c = CR then [LF] else [c])"
| "translate_newlines (c # d # cs) =
     (if c = CR then
        (if d = LF then LF # translate_newlines cs
         else LF # translate_newlines (d # cs))
      else c # translate_newlines (d # cs))"

fun keep_lines :: "string \<Rightarrow> string list" where
  "keep_lines [] = []"
| "keep_lines (c # cs) =
     (if c = LF then [LF] # keep_lines cs
      else (case keep_lines cs of
              [] \<Rightarrow> [[c]]
            | l # ls \<Rightarrow> (c # l) # ls))"

definition file_lines :: "string \<Rightarrow> string list" where
  "file_lines text = keep_lines (translate_newlines text)"

section \<open>Exceptions\<close>

datatype exn =
    ValueError string
  | RuntimeError string
  | FileNotFoundError string
  | OSError string
  | UnicodeDecodeError string
  | CalledProcessError string
  | AttributeError string
  | UnboundLocalError string
  | IndexError string
  | KeyError string

fun str_exn :: "exn \<Rightarrow> string" where
  "str_exn (ValueError m) = m"
| "str_exn (RuntimeError m) = m"
| "str_exn (FileNotFoundError m) = m"
| "str_exn (OSError m) = m"
| "str_exn (UnicodeDecodeError m) = m"
| "str_exn (CalledProcessError m) = m"
| "str_exn (AttributeError m) = m"
| "str_exn (UnboundLocalError m) = m"
| "str_exn (IndexError m) = m"
| "str_exn (KeyError m) = m"

text \<open>What opening a path and reading it as UTF-8 text gives: the exception raised by
  \<open>open\<close> or by the decoder, or the text of the file.\<close>

type_synonym filesystem = "string \<Rightarrow> exn + string"

section \<open>QuoteModel\<close>

record QuoteModel =
  body :: string
  author :: string

definition str_quote :: "QuoteModel \<Rightarrow> string" where
  "str_quote q = [DQ] @ body q @ [DQ] @ '' - '' @ author q"

section \<open>TextIngestor\<close>

text \<open>The body of the loop over the lines, shared by the text, DOCX and PDF ingestors:
  \<open>None\<close> is \<open>continue\<close> or a failed final test, \<open>Some q\<close> is \<open>quotes.append(q)\<close>.
  Unpacking a list that has not two elements raises ValueError.\<close>

definition unpack2 :: "string list \<Rightarrow> exn + (string \<times> string)" where
  "unpack2 parts =
     (case parts of
        [b, a] \<Rightarrow> Inr (b, a)
      | _ \<Rightarrow> Inl (ValueError ''not enough values to unpack''))"

definition split_author :: "string \<Rightarrow> string list" where
  "split_author line =
     (if contains '' - '' line then rsplit1 '' - '' line else rsplit1 ''-'' line)"

definition parse_line :: "string \<Rightarrow> exn + QuoteModel option" where
  "parse_line raw =
     (let line = strip raw in
      if line = [] then Inr None
      else if CHR ''-'' \<notin> set line then Inr None
      else
        (case unpack2 (split_author line) of
           Inl e \<Rightarrow> Inl e
         | Inr (b, a) \<Rightarrow>
             (let body = strip (strip_chars [CHR '' '', DQ] b);
                  author = strip a
              in if body \<noteq> [] \<and> author \<noteq> []
                 then Inr (Some \<lparr>body = body, author = author\<rparr>)
                 else Inr None)))"

fun parse_lines :: "string list \<Rightarrow> QuoteModel list \<Rightarrow> exn + QuoteModel list" where
  "parse_lines [] quotes = Inr quotes"
| "parse_lines (l # ls) quotes =
     (case parse_line l of
        Inl e \<Rightarrow> Inl e
      | Inr None \<Rightarrow> parse_lines ls quotes
      | Inr (Some q) \<Rightarrow> parse_lines ls (quotes @ [q]))"

definition TextIngestor_parse :: "filesystem \<Rightarrow> string \<Rightarrow> exn + QuoteModel list" where
  "TextIngestor_parse fs path =
     (case (case fs path of
              Inl e \<Rightarrow> Inl e
            | Inr text \<Rightarrow> parse_lines (file_lines text) []) of
        Inl e \<Rightarrow> Inl (ValueError (''Error parsing text file '' @ path @ '': '' @ str_exn e))
      | Inr quotes \<Rightarrow> Inr quotes)"

text \<open>The records one line contributes to the result: none or one.\<close>

definition emitted :: "string \<Rightarrow> QuoteModel list" where
  "emitted raw = (case parse_line raw of Inr (Some q) \<Rightarrow> [q] | _ \<Rightarrow> [])"

subsection \<open>The line rule as the specification words it\<close>

text \<open>The specification's reading of the body clean-up: surrounding whitespace is
  trimmed and one layer of enclosing double quotes is removed.\<close>

definition spec_strip_one_quote_layer :: "string \<Rightarrow> string" where
  "spec_strip_one_quote_layer l =
     (let t = strip l in
      if 2 \<le> length t \<and> hd t = DQ \<and> last t = DQ then strip (butlast (tl t)) else t)"

definition spec_line_record :: "string \<Rightarrow> QuoteModel list" where
  "spec_line_record raw =
     (let line = strip raw in
      if line = [] \<or> CHR ''-'' \<notin> set line then []
      else
        (case rsplit1 (if contains '' - '' line then '' - '' else ''-'') line of
           [l, r] \<Rightarrow>
             (let b = spec_strip_one_quote_layer l; a = strip r
              in if b \<noteq> [] \<and> a \<noteq> [] then [\<lparr>body = b, author = a\<rparr>] else [])
         | _ \<Rightarrow> []))"

section \<open>Ingestor: the facade\<close>

datatype ingestor = TextIngestor | CSVIngestor | DocxIngestor | PDFIngestor

fun allowed_extensions :: "ingestor \<Rightarrow> string list" where
  "allowed_extensions TextIngestor = [''txt'']"
| "allowed_extensions CSVIngestor = [''csv'']"
| "allowed_extensions DocxIngestor = [''docx'']"
| "allowed_extensions PDFIngestor = [''pdf'']"

fun class_name :: "ingestor \<Rightarrow> string" where
  "class_name TextIngestor = ''TextIngestor''"
| "class_name CSVIngestor = ''CSVIngestor''"
| "class_name DocxIngestor = ''DocxIngestor''"
| "class_name PDFIngestor = ''PDFIngestor''"

text \<open>\<open>IngestorInterface.can_ingest\<close>: \<open>path.split(".")[-1].lower()\<close> is looked up in the
  class's \<open>allowed_extensions\<close>.\<close>

definition extension :: "string \<Rightarrow> string" where
  "extension path = lower (last (split_char (CHR ''.'') path))"

definition can_ingest :: "ingestor \<Rightarrow> string \<Rightarrow> bool" where
  "can_ingest cls path = (extension path \<in> set (allowed_extensions cls))"

text \<open>
  \<open>Ingestor.parse\<close>.  \<open>path_exists\<close> is \<open>os.path.exists\<close>, and \<open>run cls path\<close> is what
  \<open>cls.parse(path)\<close> does: the exception it raises or the list it returns.  The first
  component of the result lists the ingestors whose \<open>parse\<close> was called.
\<close>

fun dispatch ::
  "(ingestor \<Rightarrow> string \<Rightarrow> exn + QuoteModel list) \<Rightarrow> ingestor list \<Rightarrow> string
   \<Rightarrow> ingestor list \<times> (exn + QuoteModel list)" where
  "dispatch run [] path =
     ([], Inl (ValueError (''No available ingestor for file type: '' @ path)))"
| "dispatch run (cls # rest) path =
     (if can_ingest cls path then
        ([cls],
         case run cls path of
           Inr quotes \<Rightarrow> Inr quotes
         | Inl e \<Rightarrow>
             Inl (ValueError (''Failed to parse '' @ path @ '' with '' @ class_name cls
                              @ '': '' @ str_exn e)))
      else dispatch run rest path)"

definition ingestors :: "ingestor list" where
  "ingestors = [TextIngestor, CSVIngestor, DocxIngestor, PDFIngestor]"

definition Ingestor_parse ::
  "(string \<Rightarrow> bool) \<Rightarrow> (ingestor \<Rightarrow> string \<Rightarrow> exn + QuoteModel list) \<Rightarrow> string
   \<Rightarrow> ingestor list \<times> (exn + QuoteModel list)" where
  "Ingestor_parse path_exists run path =
     (if \<not> path_exists path then ([], Inl (FileNotFoundError (''File not found: '' @ path)))
      else dispatch run ingestors path)"

section \<open>DocxIngestor\<close>

text \<open>\<open>docx_import\<close> tells whether \<open>from docx import Document\<close> succeeds, and
  \<open>open_document path\<close> is what \<open>Document(path)\<close> gives: an exception, or the texts of
  the paragraphs.\<close>

definition DocxIngestor_parse ::
  "bool \<Rightarrow> (string \<Rightarrow> exn + string list) \<Rightarrow> string \<Rightarrow> exn + QuoteModel list" where
  "DocxIngestor_parse docx_import open_document path =
     (if \<not> docx_import
      then Inl (RuntimeError ''python-docx is required to parse docx files'')
      else
        (case (case open_document path of
                 Inl e \<Rightarrow> Inl e
               | Inr paragraphs \<Rightarrow> parse_lines paragraphs []) of
           Inl e \<Rightarrow> Inl (ValueError (''Error parsing DOCX file '' @ path @ '': '' @ str_exn e))
         | Inr quotes \<Rightarrow> Inr quotes))"

section \<open>PDFIngestor\<close>

text \<open>
  The files that exist, each with what reading it as UTF-8 text gives.  An external
  tool run by \<open>subprocess.run(..., check=True)\<close> either completes (with the text it
  extracted), exits with a non-zero status (CalledProcessError) or cannot be run at all
  (another exception).
\<close>

type_synonym files = "string \<Rightarrow> (exn + string) option"

datatype tool_result =
    Completed "exn + string"
  | NonZeroExit string
  | RunError exn

record pdf_env =
  which :: "string \<Rightarrow> bool"
  tmp_name :: string
  run_tool :: "string \<Rightarrow> string \<Rightarrow> tool_result"

text \<open>The \<open>try\<close> block: the tool writes the temporary file, which is then read line by
  line.  The result is the file system the block leaves and the exception it raises or
  the quotes it collected.\<close>

definition pdf_extract ::
  "pdf_env \<Rightarrow> files \<Rightarrow> string \<Rightarrow> string \<Rightarrow> files \<times> (exn + unit)" where
  "pdf_extract env fs pdf_tool path =
     (if pdf_tool = ''pdftotext'' then
        (case run_tool env ''pdftotext'' path of
           Completed out \<Rightarrow> (fs(tmp_name env \<mapsto> out), Inr ())
         | NonZeroExit m \<Rightarrow> (fs, Inl (CalledProcessError m))
         | RunError e \<Rightarrow> (fs, Inl e))
      else
        (let fs1 = fs(tmp_name env \<mapsto> Inr []) in
         case run_tool env ''mutool'' path of
           Completed out \<Rightarrow> (fs1(tmp_name env \<mapsto> out), Inr ())
         | NonZeroExit m \<Rightarrow> (fs1, Inl (CalledProcessError m))
         | RunError e \<Rightarrow> (fs1, Inl e)))"

definition pdf_read :: "pdf_env \<Rightarrow> files \<Rightarrow> exn + QuoteModel list" where
  "pdf_read env fs =
     (case fs (tmp_name env) of
        None \<Rightarrow> Inl (FileNotFoundError (tmp_name env))
      | Some (Inl e) \<Rightarrow> Inl e
      | Some (Inr text) \<Rightarrow> parse_lines (file_lines text) [])"

definition pdf_try :: "pdf_env \<Rightarrow> files \<Rightarrow> string \<Rightarrow> string \<Rightarrow> files \<times> (exn + QuoteModel list)" where
  "pdf_try env fs pdf_tool path =
     (case pdf_extract env fs pdf_tool path of
        (fs1, Inl e) \<Rightarrow> (fs1, Inl e)
      | (fs1, Inr u) \<Rightarrow> (fs1, pdf_read env fs1))"

text \<open>The \<open>except\<close> clauses, in the source's order.\<close>

fun pdf_except :: "string \<Rightarrow> string \<Rightarrow> exn \<Rightarrow> exn" where
  "pdf_except pdf_tool path (CalledProcessError m) = RuntimeError (pdf_tool @ '' failed: '' @ m)"
| "pdf_except pdf_tool path e =
     ValueError (''Error parsing PDF file '' @ path @ '': '' @ str_exn e)"

text \<open>The \<open>finally\<close> clause: \<open>if os.path.exists(tmp_path): os.remove(tmp_path)\<close>.\<close>

definition pdf_finally :: "pdf_env \<Rightarrow> files \<Rightarrow> files" where
  "pdf_finally env fs = (if fs (tmp_name env) \<noteq> None then fs(tmp_name env := None) else fs)"

definition PDFIngestor_parse ::
  "pdf_env \<Rightarrow> files \<Rightarrow> string \<Rightarrow> files \<times> (exn + QuoteModel list)" where
  "PDFIngestor_parse env fs path =
     (if \<not> which env ''pdftotext'' \<and> \<not> which env ''mutool'' then
        (fs, Inl (RuntimeError
           ''Neither pdftotext nor mutool found; please install Xpdf utilities or mupdf-tools''))
      else
        (let pdf_tool = (if which env ''pdftotext'' then ''pdftotext'' else ''mutool'');
             fs0 = fs(tmp_name env \<mapsto> Inr [])
         in case pdf_try env fs0 pdf_tool path of
              (fs1, Inl e) \<Rightarrow> (pdf_finally env fs1, Inl (pdf_except pdf_tool path e))
            | (fs1, Inr quotes) \<Rightarrow> (pdf_finally env fs1, Inr quotes)))"

section \<open>CSVIngestor on pandas\<close>

text \<open>
  \<open>pd.read_csv\<close> is the library's: \<open>read_csv path\<close> is the exception it raises or the
  frame it returns.  A frame is its column labels and its rows; a cell is a missing
  value (NaN) or a value given by its \<open>str\<close>.
\<close>

datatype cell = NaN | Cell string

fun str_cell :: "cell \<Rightarrow> string" where
  "str_cell NaN = ''nan''"
| "str_cell (Cell s) = s"

record dataframe =
  columns :: "string list"
  rows :: "cell list list"

text \<open>\<open>columns[lower_columns.index(name)]\<close>: the first column whose lower-case form is
  \<open>name\<close>; \<open>list.index\<close> raises ValueError when there is none.\<close>

fun column_named :: "string \<Rightarrow> string list \<Rightarrow> exn + string" where
  "column_named name [] = Inl (ValueError (name @ '' is not in list''))"
| "column_named name (c # cs) = (if lower c = name then Inr c else column_named name cs)"

definition named_pair ::
  "string \<Rightarrow> string \<Rightarrow> string list \<Rightarrow> exn + (string option \<times> string option)" where
  "named_pair b a cols =
     (case column_named b cols of
        Inl e \<Rightarrow> Inl e
      | Inr bc \<Rightarrow>
          (case column_named a cols of
             Inl e \<Rightarrow> Inl e
           | Inr ac \<Rightarrow> Inr (Some bc, Some ac)))"

definition find_quote_columns :: "string list \<Rightarrow> exn + (string option \<times> string option)" where
  "find_quote_columns cols =
     (let lower_columns = map lower cols in
      if ''body'' \<in> set lower_columns \<and> ''author'' \<in> set lower_columns
        then named_pair ''body'' ''author'' cols
      else if ''quote'' \<in> set lower_columns \<and> ''speaker'' \<in> set lower_columns
        then named_pair ''quote'' ''speaker'' cols
      else if ''body'' \<in> set lower_columns \<and> ''speaker'' \<in> set lower_columns
        then named_pair ''body'' ''speaker'' cols
      else if ''quote'' \<in> set lower_columns \<and> ''author'' \<in> set lower_columns
        then named_pair ''quote'' ''author'' cols
      else Inr (None, None))"

text \<open>\<open>row[label]\<close> and \<open>row.iloc[i]\<close>.\<close>

fun row_get :: "string list \<Rightarrow> cell list \<Rightarrow> string \<Rightarrow> exn + cell" where
  "row_get (c # cs) (v # vs) label = (if c = label then Inr v else row_get cs vs label)"
| "row_get cs vs label = Inl (KeyError label)"

definition iloc :: "cell list \<Rightarrow> nat \<Rightarrow> exn + cell" where
  "iloc row i =
     (if i < length row then Inr (row ! i)
      else Inl (IndexError ''single positional indexer is out-of-bounds''))"

text \<open>The test and the append shared by both loops.\<close>

definition append_if_quote :: "cell \<Rightarrow> cell \<Rightarrow> QuoteModel list \<Rightarrow> QuoteModel list" where
  "append_if_quote b a quotes =
     (let body = strip (str_cell b); author = strip (str_cell a) in
      if body \<noteq> [] \<and> author \<noteq> [] \<and> body \<noteq> ''nan'' \<and> author \<noteq> ''nan''
      then quotes @ [\<lparr>body = body, author = author\<rparr>]
      else quotes)"

fun named_loop ::
  "string list \<Rightarrow> string \<Rightarrow> string \<Rightarrow> cell list list \<Rightarrow> QuoteModel list
   \<Rightarrow> exn + QuoteModel list" where
  "named_loop cols body_col author_col [] quotes = Inr quotes"
| "named_loop cols body_col author_col (row # rest) quotes =
     (case row_get cols row body_col of
        Inl e \<Rightarrow> Inl e
      | Inr b \<Rightarrow>
          (case row_get cols row author_col of
             Inl e \<Rightarrow> Inl e
           | Inr a \<Rightarrow>
               named_loop cols body_col author_col rest (append_if_quote b a quotes)))"

fun positional_loop :: "cell list list \<Rightarrow> QuoteModel list \<Rightarrow> exn + QuoteModel list" where
  "positional_loop [] quotes = Inr quotes"
| "positional_loop (row # rest) quotes =
     (case iloc row 0 of
        Inl e \<Rightarrow> Inl e
      | Inr b \<Rightarrow>
          (case iloc row 1 of
             Inl e \<Rightarrow> Inl e
           | Inr a \<Rightarrow> positional_loop rest (append_if_quote b a quotes)))"

text \<open>Python's truth value of \<open>str | None\<close>.\<close>

fun truthy_name :: "string option \<Rightarrow> bool" where
  "truthy_name None = False"
| "truthy_name (Some s) = (s \<noteq> [])"

definition pandas_try :: "(string \<Rightarrow> exn + dataframe) \<Rightarrow> string \<Rightarrow> exn + QuoteModel list" where
  "pandas_try read_csv path =
     (case read_csv path of
        Inl e \<Rightarrow> Inl e
      | Inr df \<Rightarrow>
          (case find_quote_columns (columns df) of
             Inl e \<Rightarrow> Inl e
           | Inr (body_col, author_col) \<Rightarrow>
               if truthy_name body_col \<and> truthy_name author_col
               then named_loop (columns df) (the body_col) (the author_col) (rows df) []
               else if 2 \<le> length (columns df) then positional_loop (rows df) []
               else Inr []))"

definition CSVIngestor_parse_pandas ::
  "(string \<Rightarrow> exn + dataframe) \<Rightarrow> string \<Rightarrow> exn + QuoteModel list" where
  "CSVIngestor_parse_pandas read_csv path =
     (case pandas_try read_csv path of
        Inl e \<Rightarrow>
          Inl (ValueError (''Error parsing CSV file '' @ path @ '' with pandas: '' @ str_exn e))
      | Inr quotes \<Rightarrow> Inr quotes)"

section \<open>CSVIngestor on the csv module\<close>

text \<open>
  \<open>csv.reader\<close> is the library's: \<open>reader path\<close> is the exception that opening or
  reading the file raises, or the rows it yields.  \<open>csv.DictReader\<close> takes the first
  row as field names and turns each later, non-empty row into a dictionary (insertion
  ordered): surplus fields go, as a list, under the key \<open>None\<close>, and missing fields are
  \<open>None\<close>.
\<close>

datatype pyval = PNone | PStr string | PList "string list"

fun truthy :: "pyval \<Rightarrow> bool" where
  "truthy PNone = False"
| "truthy (PStr s) = (s \<noteq> [])"
| "truthy (PList l) = (l \<noteq> [])"

definition py_or :: "pyval \<Rightarrow> pyval \<Rightarrow> pyval" where
  "py_or a b = (if truthy a then a else b)"

type_synonym pydict = "(string option \<times> pyval) list"

fun dict_set :: "pydict \<Rightarrow> string option \<Rightarrow> pyval \<Rightarrow> pydict" where
  "dict_set [] k v = [(k, v)]"
| "dict_set ((k', v') # d) k v =
     (if k' = k then (k, v) # d else (k', v') # dict_set d k v)"

definition dict_get :: "pydict \<Rightarrow> string \<Rightarrow> pyval" where
  "dict_get d k = (case map_of d (Some k) of None \<Rightarrow> PNone | Some v \<Rightarrow> v)"

definition dict_row :: "string list \<Rightarrow> string list \<Rightarrow> pydict" where
  "dict_row fieldnames row =
     (let d = fold (\<lambda>(k, v) d. dict_set d (Some k) (PStr v)) (zip fieldnames row) [];
          lf = length fieldnames;
          lr = length row
      in if lf < lr then dict_set d None (PList (drop lf row))
         else if lf > lr then fold (\<lambda>k d. dict_set d (Some k) PNone) (drop lr fieldnames) d
         else d)"

fun py_strip :: "pyval \<Rightarrow> exn + string" where
  "py_strip (PStr s) = Inr (strip s)"
| "py_strip (PList l) = Inl (AttributeError ''list object has no attribute strip'')"
| "py_strip PNone = Inl (AttributeError ''NoneType object has no attribute strip'')"

text \<open>The body of the loop over the dictionaries.\<close>

definition dict_row_quote :: "pydict \<Rightarrow> exn + QuoteModel option" where
  "dict_row_quote row =
     (let body0 = py_or (py_or (py_or (dict_get row ''body'') (dict_get row ''quote''))
                    (dict_get row ''Body'')) (dict_get row ''Quote'');
          author0 = py_or (py_or (py_or (dict_get row ''author'') (dict_get row ''speaker''))
                      (dict_get row ''Author'')) (dict_get row ''Speaker'');
          values = map snd row;
          positional = (\<not> truthy body0 \<or> \<not> truthy author0) \<and> 2 \<le> length values;
          body = (if positional then values ! 0 else body0);
          author = (if positional then values ! 1 else author0)
      in if truthy body \<and> truthy author then
           (case py_strip body of
              Inl e \<Rightarrow> Inl e
            | Inr b \<Rightarrow>
                (case py_strip author of
                   Inl e \<Rightarrow> Inl e
                 | Inr a \<Rightarrow> Inr (Some \<lparr>body = b, author = a\<rparr>)))
         else Inr None)"

text \<open>The loop stops at the first exception and hands over the quotes appended so far:
  the fallback appends to the same list.\<close>

fun dict_loop ::
  "string list \<Rightarrow> string list list \<Rightarrow> QuoteModel list \<Rightarrow> QuoteModel list \<times> exn option" where
  "dict_loop fieldnames [] quotes = (quotes, None)"
| "dict_loop fieldnames (row # rest) quotes =
     (if row = [] then dict_loop fieldnames rest quotes
      else
        (case dict_row_quote (dict_row fieldnames row) of
           Inl e \<Rightarrow> (quotes, Some e)
         | Inr None \<Rightarrow> dict_loop fieldnames rest quotes
         | Inr (Some q) \<Rightarrow> dict_loop fieldnames rest (quotes @ [q])))"

fun reader_loop :: "string list list \<Rightarrow> QuoteModel list \<Rightarrow> QuoteModel list" where
  "reader_loop [] quotes = quotes"
| "reader_loop (row # rest) quotes =
     (if 2 \<le> length row \<and> strip (row ! 0) \<noteq> [] \<and> strip (row ! 1) \<noteq> []
      then reader_loop rest (quotes @ [\<lparr>body = strip (row ! 0), author = strip (row ! 1)\<rparr>])
      else reader_loop rest quotes)"

definition csv_fallback ::
  "(string \<Rightarrow> exn + string list list) \<Rightarrow> string \<Rightarrow> exn \<Rightarrow> QuoteModel list
   \<Rightarrow> exn + QuoteModel list" where
  "csv_fallback reader path e quotes =
     (case reader path of
        Inl fallback_error \<Rightarrow>
          Inl (ValueError (''Error parsing CSV file '' @ path @ '': '' @ str_exn e
                 @ '', fallback also failed: '' @ str_exn fallback_error))
      | Inr all_rows \<Rightarrow> Inr (reader_loop all_rows quotes))"

definition CSVIngestor_parse_csv ::
  "(string \<Rightarrow> exn + string list list) \<Rightarrow> string \<Rightarrow> exn + QuoteModel list" where
  "CSVIngestor_parse_csv reader path =
     (case reader path of
        Inl e \<Rightarrow> csv_fallback reader path e []
      | Inr [] \<Rightarrow> Inr []
      | Inr (fieldnames # data) \<Rightarrow>
          (case dict_loop fieldnames data [] of
             (quotes, None) \<Rightarrow> Inr quotes
           | (quotes, Some e) \<Rightarrow> csv_fallback reader path e quotes))"

section \<open>MemeEngine\<close>

text \<open>\<open>s.split()\<close>: the maximal runs of characters that are not whitespace.\<close>

fun split_words :: "string \<Rightarrow> string \<Rightarrow> string list" where
  "split_words cur [] = (if cur = [] then [] else [cur])"
| "split_words cur (c # cs) =
     (if isspace c then (if cur = [] then split_words [] cs else cur # split_words [] cs)
      else split_words (cur @ [c]) cs)"

definition py_split :: "string \<Rightarrow> string list" where
  "py_split s = split_words [] s"

text \<open>
  \<open>wrap_text\<close>, the local function of \<open>make_meme\<close>.  \<open>width\<close> is the rendered width of
  a string in the font at hand (\<open>draw.textbbox\<close>, right edge minus left edge), the
  image library's.  \<open>lines\<close> and \<open>current\<close> are the loop's two variables.
\<close>

fun wrap_loop ::
  "(string \<Rightarrow> int) \<Rightarrow> int \<Rightarrow> string list \<Rightarrow> string list \<Rightarrow> string list \<Rightarrow> string list" where
  "wrap_loop width max_w [] lines current =
     (if current \<noteq> [] then lines @ [join '' '' current] else lines)"
| "wrap_loop width max_w (w # ws) lines current =
     (let candidate = (if current \<noteq> [] then join '' '' (current @ [w]) else w) in
      if width candidate \<le> max_w then wrap_loop width max_w ws lines (current @ [w])
      else wrap_loop width max_w ws
             (if current \<noteq> [] then lines @ [join '' '' current] else lines) [w])"

definition wrap_text :: "(string \<Rightarrow> int) \<Rightarrow> string \<Rightarrow> int \<Rightarrow> string list" where
  "wrap_text width s max_w = wrap_loop width max_w (py_split s) [] []"

text \<open>
  The font-size loop of \<open>make_meme\<close>, on the resized image.  \<open>text_width size\<close> is the
  width measure of the font loaded for \<open>size\<close> and \<open>ay_height size\<close> the bottom edge of
  the box of the text Ay in it.  The locals \<open>font\<close>, \<open>body_lines\<close>, \<open>author_lines\<close> and
  \<open>line_height\<close> are assigned in the loop body only; \<open>None\<close> stands for their being
  unbound.  The test \<open>total_h < img.height * 0.5\<close> is written on integers.
\<close>

record fit =
  font :: int
  body_lines :: "string list"
  author_lines :: "string list"
  line_height :: int

function font_loop ::
  "(int \<Rightarrow> string \<Rightarrow> int) \<Rightarrow> (int \<Rightarrow> int) \<Rightarrow> int \<Rightarrow> int \<Rightarrow> string \<Rightarrow> string \<Rightarrow> int
   \<Rightarrow> fit option \<Rightarrow> int \<times> fit option" where
  "font_loop text_width ay_height img_height max_width quoted author_line font_size locals =
     (if font_size > 10 then
        (let bl = wrap_text (text_width font_size) quoted max_width;
             al = wrap_text (text_width font_size) author_line max_width;
             lh = ay_height font_size;
             total_h = (int (length bl) + int (length al)) * (lh + 4);
             assigned = Some \<lparr>font = font_size, body_lines = bl, author_lines = al,
                              line_height = lh\<rparr>
         in if 2 * total_h < img_height then (font_size, assigned)
            else font_loop text_width ay_height img_height max_width quoted author_line
                   (font_size - 2) assigned)
      else (font_size, locals))"
  by pat_completeness auto
termination
  by (relation "measure (\<lambda>(tw, ah, h, mw, b, a, fs, l). nat (fs - 10))") auto

declare font_loop.simps [simp del]

text \<open>From \<open>body = f'"{text}"'\<close> to \<open>lines = body_lines + [""] + author_lines\<close>: the
  font the caption is drawn in and its lines, or the exception raised.\<close>

definition make_meme_layout ::
  "(int \<Rightarrow> string \<Rightarrow> int) \<Rightarrow> (int \<Rightarrow> int) \<Rightarrow> int \<Rightarrow> int \<Rightarrow> string \<Rightarrow> string
   \<Rightarrow> exn + (int \<times> string list)" where
  "make_meme_layout text_width ay_height img_width img_height quote_text quote_author =
     (let body = [DQ] @ quote_text @ [DQ];
          author_line = ''- '' @ quote_author;
          padding = 20;
          max_width = img_width - 2 * padding;
          font_size = min 40 (img_height div 10)
      in case font_loop text_width ay_height img_height max_width body author_line
                font_size None of
           (fs, None) \<Rightarrow>
             Inl (UnboundLocalError
                    ''cannot access local variable body_lines where it is not associated with a value'')
         | (fs, Some f) \<Rightarrow> Inr (font f, body_lines f @ [[]] @ author_lines f))"

section \<open>Specification-level notions and example inputs\<close>


text \<open>A path with two dots and an upper-case letter in its extension, and ingestors of
  which only the text one returns a quote.\<close>

definition example_exists :: "string \<Rightarrow> bool" where
  "example_exists p = (p = ''data/quotes.v2.Txt'')"

definition example_run :: "ingestor \<Rightarrow> string \<Rightarrow> exn + QuoteModel list" where
  "example_run cls p =
     (if cls = TextIngestor then Inr [\<lparr>body = ''b'', author = ''a''\<rparr>] else Inr [])"

text \<open>Ingestors of which the PDF one fails.\<close>

definition failing_run :: "ingestor \<Rightarrow> string \<Rightarrow> exn + QuoteModel list" where
  "failing_run cls p =
     (if cls = PDFIngestor then Inl (RuntimeError ''pdftotext failed: exit status 1'')
      else Inr [])"

text \<open>An environment with mutool only, which exits with a non-zero status, and a file
  system that holds the PDF.\<close>

definition example_pdf_env :: pdf_env where
  "example_pdf_env =
     \<lparr>which = (\<lambda>tool. tool = ''mutool''),
      tmp_name = ''/tmp/tmpab12cd.txt'',
      run_tool = (\<lambda>tool pdf. NonZeroExit ''exit status 1'')\<rparr>"

definition example_files :: files where
  "example_files p = (if p = ''q.pdf'' then Some (Inl (UnicodeDecodeError ''binary'')) else None)"

text \<open>The invariant of the data model: both fields are non-empty after trimming.\<close>

definition nonempty_after_trim :: "QuoteModel \<Rightarrow> bool" where
  "nonempty_after_trim q = (strip (body q) \<noteq> [] \<and> strip (author q) \<noteq> [])"

text \<open>A frame read by \<open>read_csv\<close>, with a NaN cell and a cell of the word nan.\<close>

definition example_read_csv :: "string \<Rightarrow> exn + dataframe" where
  "example_read_csv p =
     Inr \<lparr>columns = [''Quote'', ''Speaker''],
          rows = [[Cell '' nan '', Cell ''Marie Curie''],
                  [NaN, Cell ''Nobody''],
                  [Cell ''Stay hungry'', Cell ''Jobs'']]\<rparr>"

text \<open>
  The column resolution as the specification words it.  The name pairs in their
  priority order; a name is looked up in the lower-cased header and stands for the
  first column that has it; the first pair with both names in the header wins; with no
  such pair the first two columns are taken when there are two.  The records are then
  read off the two resolved positions of each row.
\<close>

definition spec_column_pairs :: "(string \<times> string) list" where
  "spec_column_pairs =
     [(''body'', ''author''), (''quote'', ''speaker''),
      (''body'', ''speaker''), (''quote'', ''author'')]"

definition index_lower :: "string \<Rightarrow> string list \<Rightarrow> nat" where
  "index_lower name header = length (takeWhile (\<lambda>c. lower c \<noteq> name) header)"

definition spec_resolve :: "string list \<Rightarrow> (nat \<times> nat) option" where
  "spec_resolve header =
     (case find (\<lambda>(b, a). b \<in> set (map lower header) \<and> a \<in> set (map lower header))
             spec_column_pairs of
        Some (b, a) \<Rightarrow> Some (index_lower b header, index_lower a header)
      | None \<Rightarrow> if 2 \<le> length header then Some (0, 1) else None)"

definition spec_csv_records :: "string list \<Rightarrow> cell list list \<Rightarrow> QuoteModel list" where
  "spec_csv_records header rs =
     (case spec_resolve header of
        None \<Rightarrow> []
      | Some (i, j) \<Rightarrow> concat (map (\<lambda>row. append_if_quote (row ! i) (row ! j) []) rs))"

text \<open>A frame whose named columns are neither first nor lower-case.\<close>

definition example_frame :: dataframe where
  "example_frame =
     \<lparr>columns = [''Id'', ''SPEAKER'', ''Quote''],
      rows = [[Cell ''1'', Cell ''Jobs'', Cell ''Stay hungry''],
              [Cell ''2'', Cell ''Nobody'', NaN]]\<rparr>"

definition example_frame_reader :: "string \<Rightarrow> exn + dataframe" where
  "example_frame_reader p = Inr example_frame"

text \<open>The lines of \<open>wrap_text\<close> as groups of words, from the moment \<open>current\<close> holds a
  first word: the groups that the rest of the loop closes, the last one at its end.\<close>

fun wrap_from :: "(string \<Rightarrow> int) \<Rightarrow> int \<Rightarrow> string list \<Rightarrow> string list \<Rightarrow> string list list" where
  "wrap_from width max_w [] current = [current]"
| "wrap_from width max_w (w # ws) current =
     (if width (join '' '' (current @ [w])) \<le> max_w
      then wrap_from width max_w ws (current @ [w])
      else current # wrap_from width max_w ws [w])"

text \<open>A width measure for examples: ten pixels a character.\<close>

definition example_width :: "string \<Rightarrow> int" where
  "example_width s = 10 * int (length s)"

text \<open>
  Well-formed pairs, as the display form itself requires of any reader: body and author
  are non-empty, already trimmed and free of line breaks, and the author, with the
  space that precedes it in the display form, does not hold the separator space,
  hyphen, space.
\<close>

definition spec_well_formed :: "QuoteModel \<Rightarrow> bool" where
  "spec_well_formed q =
     (body q \<noteq> [] \<and> strip (body q) = body q \<and>
      LF \<notin> set (body q) \<and> CR \<notin> set (body q) \<and>
      author q \<noteq> [] \<and> strip (author q) = author q \<and>
      LF \<notin> set (author q) \<and> CR \<notin> set (author q) \<and>
      \<not> contains '' - '' ('' '' @ author q))"

text \<open>The pairs that \<open>TextIngestor.parse\<close> reads back: well-formed ones whose body
  neither begins nor ends with a double quote, since \<open>strip(' "')\<close> removes every
  double quote at either end of the left part.\<close>

definition well_formed :: "QuoteModel \<Rightarrow> bool" where
  "well_formed q =
     (spec_well_formed q \<and> hd (body q) \<noteq> DQ \<and> last (body q) \<noteq> DQ)"

text \<open>A quote whose body begins with a quoted word, and the file of its display form.\<close>

definition quoted_word_quote :: QuoteModel where
  "quoted_word_quote = \<lparr>body = [DQ] @ ''Hi'' @ [DQ] @ '' he said'', author = ''Someone''\<rparr>"

definition quoted_word_fs :: filesystem where
  "quoted_word_fs p = Inr (str_quote quoted_word_quote)"

text \<open>Two quotes, the second with the separator inside its body, and the file of their
  display forms, one a line.\<close>

definition example_quotes :: "QuoteModel list" where
  "example_quotes =
     [\<lparr>body = ''To be or not to be'', author = ''Shakespeare''\<rparr>,
      \<lparr>body = ''Stay hungry - stay foolish'', author = ''Steve Jobs''\<rparr>]"

definition example_display_fs :: filesystem where
  "example_display_fs p = Inr (join [LF] (map str_quote example_quotes))"

section \<open>Strings: substrings, last occurrence, stripping\<close>

lemma startswith_iff: "startswith s sub \<longleftrightarrow> (\<exists>q. s = sub @ q)"
  unfolding startswith_def
  by (metis append_eq_conv_conj append_take_drop_id)

lemma contains_iff: "contains sub s \<longleftrightarrow> (\<exists>p q. s = p @ sub @ q)"
proof (induction s)
  case Nil
  then show ?case by auto
next
  case (Cons c cs)
  show ?case
  proof
    assume "contains sub (c # cs)"
    then consider "startswith (c # cs) sub" | "contains sub cs" by auto
    then show "\<exists>p q. c # cs = p @ sub @ q"
    proof cases
      case 1
      then obtain q where "c # cs = sub @ q" by (auto simp: startswith_iff)
      then have "c # cs = [] @ sub @ q" by simp
      then show ?thesis by blast
    next
      case 2
      with Cons.IH obtain p q where "cs = p @ sub @ q" by blast
      then have "c # cs = (c # p) @ sub @ q" by simp
      then show ?thesis by blast
    qed
  next
    assume "\<exists>p q. c # cs = p @ sub @ q"
    then obtain p q where pq: "c # cs = p @ sub @ q" by blast
    show "contains sub (c # cs)"
    proof (cases p)
      case Nil
      with pq have "startswith (c # cs) sub" by (auto simp: startswith_iff)
      then show ?thesis by simp
    next
      case (Cons a p')
      with pq have "cs = p' @ sub @ q" by simp
      with Cons.IH have "contains sub cs" by blast
      then show ?thesis by simp
    qed
  qed
qed

lemma rfind_None_iff: "rfind sub s = None \<longleftrightarrow> \<not> contains sub s"
  by (induction s) (auto split: option.splits)

lemma rfind_Some_occ:
  "rfind sub s = Some i \<Longrightarrow> s = take i s @ sub @ drop (i + length sub) s"
proof (induction s arbitrary: i)
  case Nil
  then show ?case by (auto split: if_splits)
next
  case (Cons c cs)
  show ?case
  proof (cases "rfind sub cs")
    case None
    with Cons.prems have sw: "startswith (c # cs) sub" and i: "i = 0"
      by (auto split: if_splits)
    from sw obtain q where q: "c # cs = sub @ q" by (auto simp: startswith_iff)
    then have "drop (length sub) (c # cs) = q" by (metis append_eq_conv_conj)
    with q i show ?thesis by simp
  next
    case (Some j)
    with Cons.prems have i: "i = Suc j" by simp
    from Cons.IH[OF Some] have "cs = take j cs @ sub @ drop (j + length sub) cs" .
    with i show ?thesis by simp
  qed
qed

lemma rfind_Some_last:
  "rfind sub s = Some i \<Longrightarrow> s = p @ sub @ q \<Longrightarrow> length p \<le> i"
proof (induction s arbitrary: i p)
  case Nil
  then show ?case by (auto split: if_splits)
next
  case (Cons c cs)
  show ?case
  proof (cases p)
    case Nil
    then show ?thesis by simp
  next
    case (Cons a p')
    with Cons.prems(2) have cs: "cs = p' @ sub @ q" by simp
    then have "contains sub cs" by (auto simp: contains_iff)
    then obtain j where j: "rfind sub cs = Some j"
      using rfind_None_iff by (cases "rfind sub cs") auto
    with Cons.prems(1) have "i = Suc j" by simp
    moreover from Cons.IH[OF j cs] have "length p' \<le> j" .
    ultimately show ?thesis using Cons by simp
  qed
qed

lemma dropWhile_rev_dropWhile:
  "dropWhile P (rev (dropWhile P (rev (dropWhile P s)))) = rev (dropWhile P (rev (dropWhile P s)))"
proof -
  let ?t = "dropWhile P s"
  let ?u = "dropWhile P (rev ?t)"
  have t: "?t = rev ?u @ rev (takeWhile P (rev ?t))"
    by (metis rev_append rev_rev_ident takeWhile_dropWhile_id)
  show ?thesis
  proof (cases "rev ?u")
    case Nil
    then have u: "?u = []" by (simp only: rev_is_Nil_conv)
    show ?thesis unfolding u by simp
  next
    case (Cons a as)
    with t obtain rest where tt: "?t = a # rest" by (metis append_Cons)
    have "\<not> P a" using hd_dropWhile[of P s] unfolding tt by simp
    with Cons show ?thesis by simp
  qed
qed

lemma strip_with_idem: "strip_with P (strip_with P s) = strip_with P s"
  unfolding strip_with_def by (simp add: dropWhile_rev_dropWhile)

lemma strip_idem: "strip (strip s) = strip s"
  by (simp add: strip_def strip_with_idem)

lemma strip_with_decomp:
  "\<exists>pre suf. s = pre @ strip_with P s @ suf \<and> (\<forall>c\<in>set pre. P c) \<and> (\<forall>c\<in>set suf. P c)"
proof -
  let ?t = "dropWhile P s"
  have 1: "s = takeWhile P s @ ?t" by simp
  have 2: "?t = rev (dropWhile P (rev ?t)) @ rev (takeWhile P (rev ?t))"
    by (metis rev_append rev_rev_ident takeWhile_dropWhile_id)
  have "s = takeWhile P s @ strip_with P s @ rev (takeWhile P (rev ?t))"
    unfolding strip_with_def using 1 2 by metis
  moreover have "\<forall>c\<in>set (takeWhile P s). P c" by (auto dest: set_takeWhileD)
  moreover have "\<forall>c\<in>set (rev (takeWhile P (rev ?t))). P c" by (auto dest: set_takeWhileD)
  ultimately show ?thesis by blast
qed

lemma strip_with_ends:
  "strip_with P s \<noteq> [] \<Longrightarrow> \<not> P (hd (strip_with P s)) \<and> \<not> P (last (strip_with P s))"
proof -
  assume ne: "strip_with P s \<noteq> []"
  let ?t = "dropWhile P s"
  let ?u = "dropWhile P (rev ?t)"
  from ne have u: "?u \<noteq> []" by (simp add: strip_with_def)
  then have "\<not> P (hd ?u)" by (rule hd_dropWhile)
  then have l: "\<not> P (last (strip_with P s))" using u by (simp add: strip_with_def last_rev)
  have "dropWhile P (strip_with P s) = strip_with P s"
    unfolding strip_with_def by (rule dropWhile_rev_dropWhile)
  then have "\<not> P (hd (strip_with P s))" using ne
    by (metis hd_dropWhile)
  with l show ?thesis by simp
qed

lemma strip_with_id:
  "s \<noteq> [] \<Longrightarrow> \<not> P (hd s) \<Longrightarrow> \<not> P (last s) \<Longrightarrow> strip_with P s = s"
proof -
  assume ne: "s \<noteq> []" and h: "\<not> P (hd s)" and l: "\<not> P (last s)"
  from ne h have 1: "dropWhile P s = s" by (cases s) auto
  from ne l have "\<not> P (hd (rev s))" by (simp add: hd_rev)
  with ne have 2: "dropWhile P (rev s) = rev s" by (cases "rev s") auto
  show ?thesis unfolding strip_with_def by (simp add: 1 2)
qed

lemma strip_with_Nil [simp]: "strip_with P [] = []"
  by (simp add: strip_with_def)

lemma contains_single: "contains [c] s \<longleftrightarrow> c \<in> set s"
  by (induction s) (auto simp: startswith_def)

lemma split_author_eq:
  "split_author line = rsplit1 (if contains '' - '' line then '' - '' else ''-'') line"
  by (simp add: split_author_def)

lemma contains_separator:
  "CHR ''-'' \<in> set line \<Longrightarrow>
   contains (if contains '' - '' line then '' - '' else ''-'') line"
  by (simp add: contains_single)

lemma parse_line_split:
  assumes "strip raw \<noteq> []" "CHR ''-'' \<in> set (strip raw)"
  shows "\<exists>i. rfind (if contains '' - '' (strip raw) then '' - '' else ''-'') (strip raw) = Some i \<and>
     parse_line raw =
       Inr (if strip (strip_chars [CHR '' '', DQ] (take i (strip raw))) \<noteq> [] \<and>
               strip (drop (i + length (if contains '' - '' (strip raw) then '' - '' else ''-''))
                      (strip raw)) \<noteq> []
            then Some \<lparr>body = strip (strip_chars [CHR '' '', DQ] (take i (strip raw))),
                       author = strip (drop (i + length (if contains '' - '' (strip raw)
                                  then '' - '' else ''-'')) (strip raw))\<rparr>
            else None)"
proof -
  let ?s = "strip raw"
  let ?sep = "if contains '' - '' ?s then '' - '' else ''-''"
  from assms(2) have "contains ?sep ?s" by (rule contains_separator)
  then obtain i where i: "rfind ?sep ?s = Some i"
    using rfind_None_iff by (cases "rfind ?sep ?s") auto
  have u: "unpack2 (split_author ?s) = Inr (take i ?s, drop (i + length ?sep) ?s)"
    unfolding split_author_eq rsplit1_def unpack2_def using i by simp
  show ?thesis
    apply (rule exI[of _ i])
    apply (rule conjI[OF i])
    unfolding parse_line_def Let_def u using assms by simp
qed

lemma parse_line_skip:
  "strip raw = [] \<or> CHR ''-'' \<notin> set (strip raw) \<Longrightarrow> parse_line raw = Inr None"
  by (auto simp: parse_line_def Let_def)

lemma parse_line_no_exn: "parse_line raw \<noteq> Inl e"
proof (cases "strip raw = [] \<or> CHR ''-'' \<notin> set (strip raw)")
  case True
  then show ?thesis by (simp add: parse_line_skip)
next
  case False
  then obtain r where "parse_line raw = Inr r"
    using parse_line_split[of raw] by blast
  then show ?thesis by simp
qed

lemma parse_lines_concat:
  "parse_lines ls acc = Inr (acc @ concat (map emitted ls))"
proof (induction ls arbitrary: acc)
  case Nil
  then show ?case by simp
next
  case (Cons l ls)
  show ?case
  proof (cases "parse_line l")
    case (Inl e)
    then show ?thesis using parse_line_no_exn by blast
  next
    case (Inr r)
    then show ?thesis using Cons.IH by (cases r) (simp_all add: emitted_def)
  qed
qed

section \<open>The text ingestor, line by line\<close>



lemma TextIngestor_parse_ok:
  "fs path = Inr text \<Longrightarrow>
   TextIngestor_parse fs path = Inr (concat (map emitted (file_lines text)))"
  by (simp add: TextIngestor_parse_def parse_lines_concat)




section \<open>The facade\<close>

lemma split_char_length:
  "length (split_char c s) = Suc (length (filter (\<lambda>x. x = c) s))"
  by (induction s) (auto split: list.splits)

lemma split_char_notin: "c \<notin> set s \<Longrightarrow> split_char c s = [s]"
  by (induction s) (auto split: list.splits)

lemma last_split_char:
  "c \<notin> set suf \<Longrightarrow> last (split_char c (pre @ [c] @ suf)) = suf"
proof (induction pre)
  case Nil
  then show ?case by (simp add: split_char_notin)
next
  case (Cons x pre)
  let ?rest = "split_char c (pre @ [c] @ suf)"
  have "2 \<le> length ?rest" by (simp add: split_char_length)
  then obtain p q ps where rest: "?rest = p # q # ps"
    by (metis Suc_le_length_iff numeral_2_eq_2)
  from Cons have l: "last ?rest = suf" by simp
  show ?case
  proof (cases "x = c")
    case True
    then have "split_char c ((x # pre) @ [c] @ suf) = [] # ?rest" by simp
    with rest l show ?thesis by simp
  next
    case False
    then have "split_char c ((x # pre) @ [c] @ suf) = (x # p) # q # ps"
      using rest by simp
    with rest l show ?thesis by simp
  qed
qed

lemma extension_no_dot: "CHR ''.'' \<notin> set path \<Longrightarrow> extension path = lower path"
  by (simp add: extension_def split_char_notin)

lemma extension_after_last_dot:
  "path = pre @ ''.'' @ suf \<Longrightarrow> CHR ''.'' \<notin> set suf \<Longrightarrow> extension path = lower suf"
  unfolding extension_def using last_split_char[of "CHR ''.''" suf pre] by simp

lemma dispatch_find:
  "dispatch run xs path =
     (case find (\<lambda>cls. can_ingest cls path) xs of
        None \<Rightarrow> ([], Inl (ValueError (''No available ingestor for file type: '' @ path)))
      | Some cls \<Rightarrow>
          ([cls],
           case run cls path of
             Inr quotes \<Rightarrow> Inr quotes
           | Inl e \<Rightarrow>
               Inl (ValueError (''Failed to parse '' @ path @ '' with '' @ class_name cls
                                @ '': '' @ str_exn e))))"
  by (induction xs) simp_all

text \<open>
  C2.  The extension is the lower-cased text after the last dot of the path (the whole
  path when it has no dot).  For an existing path the facade calls the first of
  TextIngestor, CSVIngestor, DocxIngestor, PDFIngestor whose extension list has it, and
  returns what that one returns; no match is a ValueError.  The path \<open>x.CSV\<close> has
  extension \<open>csv\<close> and goes to CSVIngestor.
\<close>

theorem Ingestor_dispatch:
  "(CHR ''.'' \<notin> set path \<longrightarrow> extension path = lower path) \<and>
   (\<forall>pre suf. path = pre @ ''.'' @ suf \<and> CHR ''.'' \<notin> set suf \<longrightarrow> extension path = lower suf) \<and>
   (path_exists path \<longrightarrow>
      (case find (\<lambda>cls. extension path \<in> set (allowed_extensions cls))
              [TextIngestor, CSVIngestor, DocxIngestor, PDFIngestor] of
         None \<Rightarrow>
           Ingestor_parse path_exists run path
             = ([], Inl (ValueError (''No available ingestor for file type: '' @ path)))
       | Some cls \<Rightarrow>
           fst (Ingestor_parse path_exists run path) = [cls] \<and>
           (\<forall>quotes. run cls path = Inr quotes \<longrightarrow>
                snd (Ingestor_parse path_exists run path) = Inr quotes))) \<and>
   extension ''x.CSV'' = ''csv'' \<and>
   fst (Ingestor_parse (\<lambda>p. True) run ''x.CSV'') = [CSVIngestor]"
proof (intro conjI)
  show "CHR ''.'' \<notin> set path \<longrightarrow> extension path = lower path"
    by (simp add: extension_no_dot)
  show "\<forall>pre suf. path = pre @ ''.'' @ suf \<and> CHR ''.'' \<notin> set suf \<longrightarrow> extension path = lower suf"
    using extension_after_last_dot by blast
  have f: "find (\<lambda>cls. can_ingest cls path) ingestors
        = find (\<lambda>cls. extension path \<in> set (allowed_extensions cls))
            [TextIngestor, CSVIngestor, DocxIngestor, PDFIngestor]"
    by (simp only: can_ingest_def ingestors_def)
  show "path_exists path \<longrightarrow>
      (case find (\<lambda>cls. extension path \<in> set (allowed_extensions cls))
              [TextIngestor, CSVIngestor, DocxIngestor, PDFIngestor] of
         None \<Rightarrow>
           Ingestor_parse path_exists run path
             = ([], Inl (ValueError (''No available ingestor for file type: '' @ path)))
       | Some cls \<Rightarrow>
           fst (Ingestor_parse path_exists run path) = [cls] \<and>
           (\<forall>quotes. run cls path = Inr quotes \<longrightarrow>
                snd (Ingestor_parse path_exists run path) = Inr quotes))"
    unfolding f[symmetric] Ingestor_parse_def dispatch_find
    by (simp split: option.splits)
  show e: "extension ''x.CSV'' = ''csv''" by code_simp
  show "fst (Ingestor_parse (\<lambda>p. True) run ''x.CSV'') = [CSVIngestor]"
    by (simp add: Ingestor_parse_def ingestors_def can_ingest_def e)
qed

theorem Ingestor_dispatch_witness:
  "example_exists ''data/quotes.v2.Txt'' \<and>
   extension ''data/quotes.v2.Txt'' = ''txt'' \<and>
   Ingestor_parse example_exists example_run ''data/quotes.v2.Txt''
     = ([TextIngestor], Inr [\<lparr>body = ''b'', author = ''a''\<rparr>])"
proof -
  let ?path = "''data/quotes.v2.Txt''"
  have lo: "lower ''Txt'' = ''txt''" by code_simp
  have sp: "?path = ''data/quotes.v2'' @ ''.'' @ ''Txt'' \<and> CHR ''.'' \<notin> set ''Txt''" by simp
  note t = Ingestor_dispatch[of ?path example_exists example_run]
  from t have "\<forall>pre suf. ?path = pre @ ''.'' @ suf \<and> CHR ''.'' \<notin> set suf
      \<longrightarrow> extension ?path = lower suf"
    by (rule conjunct1[OF conjunct2])
  with sp have "extension ?path = lower ''Txt''" by blast
  with lo have e: "extension ?path = ''txt''" by simp
  have ex: "example_exists ?path" by (simp add: example_exists_def)
  from t have "example_exists ?path \<longrightarrow>
    (case find (\<lambda>cls. extension ?path \<in> set (allowed_extensions cls))
              [TextIngestor, CSVIngestor, DocxIngestor, PDFIngestor] of
         None \<Rightarrow>
           Ingestor_parse example_exists example_run ?path
             = ([], Inl (ValueError (''No available ingestor for file type: '' @ ?path)))
       | Some cls \<Rightarrow>
           fst (Ingestor_parse example_exists example_run ?path) = [cls] \<and>
           (\<forall>quotes. example_run cls ?path = Inr quotes \<longrightarrow>
                snd (Ingestor_parse example_exists example_run ?path) = Inr quotes))"
    by (rule conjunct1[OF conjunct2[OF conjunct2]])
  with ex have "fst (Ingestor_parse example_exists example_run ?path) = [TextIngestor] \<and>
       snd (Ingestor_parse example_exists example_run ?path)
         = Inr [\<lparr>body = ''b'', author = ''a''\<rparr>]"
    unfolding e by (simp add: example_run_def)
  then have "Ingestor_parse example_exists example_run ?path
       = ([TextIngestor], Inr [\<lparr>body = ''b'', author = ''a''\<rparr>])"
    by (metis prod.collapse)
  with e ex show ?thesis by simp
qed

text \<open>
  C9.  When the path exists, \<open>cls\<close> is the first ingestor that accepts it and its
  \<open>parse\<close> raises \<open>e\<close>, the facade raises a ValueError whose message holds the path, the
  class name and the message of \<open>e\<close>, and \<open>cls\<close> is the only ingestor it has called.
\<close>

theorem Ingestor_parse_failure:
  assumes "path_exists path"
    and "find (\<lambda>cls. can_ingest cls path)
           [TextIngestor, CSVIngestor, DocxIngestor, PDFIngestor] = Some cls"
    and "run cls path = Inl e"
  shows "Ingestor_parse path_exists run path =
     ([cls], Inl (ValueError (''Failed to parse '' @ path @ '' with '' @ class_name cls
                              @ '': '' @ str_exn e)))"
  using assms by (simp add: Ingestor_parse_def dispatch_find ingestors_def)

theorem Ingestor_parse_failure_witness:
  "find (\<lambda>cls. can_ingest cls ''a.pdf'')
      [TextIngestor, CSVIngestor, DocxIngestor, PDFIngestor] = Some PDFIngestor \<and>
   failing_run PDFIngestor ''a.pdf'' = Inl (RuntimeError ''pdftotext failed: exit status 1'') \<and>
   Ingestor_parse (\<lambda>p. True) failing_run ''a.pdf'' =
     ([PDFIngestor],
      Inl (ValueError ''Failed to parse a.pdf with PDFIngestor: pdftotext failed: exit status 1''))"
proof -
  have e: "extension ''a.pdf'' = ''pdf''" by code_simp
  have f: "find (\<lambda>cls. can_ingest cls ''a.pdf'')
      [TextIngestor, CSVIngestor, DocxIngestor, PDFIngestor] = Some PDFIngestor"
    by (simp add: can_ingest_def e)
  have r: "failing_run PDFIngestor ''a.pdf'' = Inl (RuntimeError ''pdftotext failed: exit status 1'')"
    by (simp add: failing_run_def)
  from Ingestor_parse_failure[of "\<lambda>p. True" "''a.pdf''" PDFIngestor failing_run, OF _ f r]
  have "Ingestor_parse (\<lambda>p. True) failing_run ''a.pdf'' =
     ([PDFIngestor],
      Inl (ValueError (''Failed to parse '' @ ''a.pdf'' @ '' with '' @ class_name PDFIngestor
                              @ '': '' @ str_exn (RuntimeError ''pdftotext failed: exit status 1''))))"
    by simp
  with f r show ?thesis by simp
qed

section \<open>The PDF ingestor's temporary file\<close>

lemma pdf_finally_tmp: "pdf_finally env fs (tmp_name env) = None"
  by (simp add: pdf_finally_def)

lemma pdf_finally_other: "p \<noteq> tmp_name env \<Longrightarrow> pdf_finally env fs p = fs p"
  by (simp add: pdf_finally_def)

lemma pdf_extract_other:
  "p \<noteq> tmp_name env \<Longrightarrow> fst (pdf_extract env fs pdf_tool path) p = fs p"
  by (simp add: pdf_extract_def Let_def split: tool_result.splits)

lemma pdf_try_other:
  "p \<noteq> tmp_name env \<Longrightarrow> fst (pdf_try env fs pdf_tool path) p = fs p"
  using pdf_extract_other[of p env fs pdf_tool path]
  by (cases "pdf_extract env fs pdf_tool path") (auto simp: pdf_try_def split: sum.splits)

lemma PDFIngestor_parse_fst:
  "which env ''pdftotext'' \<or> which env ''mutool'' \<Longrightarrow>
   fst (PDFIngestor_parse env fs path) =
     pdf_finally env (fst (pdf_try env (fs(tmp_name env \<mapsto> Inr []))
        (if which env ''pdftotext'' then ''pdftotext'' else ''mutool'') path))"
  by (auto simp: PDFIngestor_parse_def Let_def split: prod.splits sum.splits)

text \<open>
  C8.  When an extraction tool is available, so that the temporary file is created,
  the file system that \<open>PDFIngestor.parse\<close> leaves has no file under the temporary
  name, whatever the tool did and whether the call returns quotes or raises; every
  other file is as it was.
\<close>

theorem PDFIngestor_parse_removes_tmp:
  assumes "which env ''pdftotext'' \<or> which env ''mutool''"
  shows "fst (PDFIngestor_parse env fs path) (tmp_name env) = None \<and>
         (\<forall>p. p \<noteq> tmp_name env \<longrightarrow> fst (PDFIngestor_parse env fs path) p = fs p)"
proof (intro conjI allI impI)
  show "fst (PDFIngestor_parse env fs path) (tmp_name env) = None"
    unfolding PDFIngestor_parse_fst[OF assms] by (rule pdf_finally_tmp)
next
  fix p assume p: "p \<noteq> tmp_name env"
  show "fst (PDFIngestor_parse env fs path) p = fs p"
    unfolding PDFIngestor_parse_fst[OF assms]
    by (simp add: pdf_finally_other[OF p] pdf_try_other[OF p] p)
qed

theorem PDFIngestor_parse_removes_tmp_witness:
  "which example_pdf_env ''mutool'' \<and>
   PDFIngestor_parse example_pdf_env example_files ''q.pdf''
     = (example_files, Inl (RuntimeError ''mutool failed: exit status 1'')) \<and>
   fst (PDFIngestor_parse example_pdf_env example_files ''q.pdf'') (tmp_name example_pdf_env)
     = None"
proof -
  have w: "which example_pdf_env ''mutool''" by (simp add: example_pdf_env_def)
  then have h: "which example_pdf_env ''pdftotext'' \<or> which example_pdf_env ''mutool''" by simp
  have tmp: "example_files (tmp_name example_pdf_env) = None"
    by (simp add: example_files_def example_pdf_env_def)
  from PDFIngestor_parse_removes_tmp[OF h, of example_files "''q.pdf''"]
  have gone: "fst (PDFIngestor_parse example_pdf_env example_files ''q.pdf'')
                (tmp_name example_pdf_env) = None"
    and same: "\<forall>p. p \<noteq> tmp_name example_pdf_env \<longrightarrow>
                fst (PDFIngestor_parse example_pdf_env example_files ''q.pdf'') p = example_files p"
    by simp_all
  have "fst (PDFIngestor_parse example_pdf_env example_files ''q.pdf'') = example_files"
  proof
    fix p show "fst (PDFIngestor_parse example_pdf_env example_files ''q.pdf'') p = example_files p"
      using gone same tmp by (cases "p = tmp_name example_pdf_env") simp_all
  qed
  moreover have "snd (PDFIngestor_parse example_pdf_env example_files ''q.pdf'')
      = Inl (RuntimeError ''mutool failed: exit status 1'')"
    by (simp add: PDFIngestor_parse_def example_pdf_env_def pdf_try_def pdf_extract_def Let_def)
  ultimately have "PDFIngestor_parse example_pdf_env example_files ''q.pdf''
     = (example_files, Inl (RuntimeError ''mutool failed: exit status 1''))"
    by (metis prod.collapse)
  with w gone show ?thesis by simp
qed

section \<open>The font-size loop\<close>

lemma font_loop_start_small:
  "font_size \<le> 10 \<Longrightarrow>
   font_loop text_width ay_height img_height max_width quoted author_line font_size locals
     = (font_size, locals)"
  by (simp add: font_loop.simps)

lemma font_loop_assigns:
  "10 < font_size \<or> locals \<noteq> None \<Longrightarrow>
   snd (font_loop text_width ay_height img_height max_width quoted author_line font_size locals)
     \<noteq> None"
proof (induction text_width ay_height img_height max_width quoted author_line font_size locals
       rule: font_loop.induct)
  case (1 text_width ay_height img_height max_width quoted author_line font_size locals)
  show ?case
  proof (cases "10 < font_size")
    case False
    with "1.prems" show ?thesis by (simp add: font_loop.simps)
  next
    case True
    show ?thesis
    proof (cases "2 * ((int (length (wrap_text (text_width font_size) quoted max_width))
                       + int (length (wrap_text (text_width font_size) author_line max_width)))
                      * (ay_height font_size + 4)) < img_height")
      case fits: True
      with True show ?thesis by (subst font_loop.simps) (simp add: Let_def)
    next
      case nofit: False
      have "snd (font_loop text_width ay_height img_height max_width quoted author_line
                  (font_size - 2)
                  (Some \<lparr>font = font_size,
                         body_lines = wrap_text (text_width font_size) quoted max_width,
                         author_lines = wrap_text (text_width font_size) author_line max_width,
                         line_height = ay_height font_size\<rparr>)) \<noteq> None"
        using "1.IH"[OF True refl refl refl refl refl nofit] by simp
      with True nofit show ?thesis
        by (subst font_loop.simps) (simp add: Let_def)
    qed
  qed
qed

lemma make_meme_layout_tall_image:
  "110 \<le> img_height \<Longrightarrow>
   \<exists>r. make_meme_layout text_width ay_height img_width img_height quote_text quote_author = Inr r"
proof -
  assume h: "110 \<le> img_height"
  then have "10 < min 40 (img_height div 10)" by simp
  then have "snd (font_loop text_width ay_height img_height (img_width - 2 * 20)
                    ([DQ] @ quote_text @ [DQ]) (''- '' @ quote_author)
                    (min 40 (img_height div 10)) None) \<noteq> None"
    using font_loop_assigns by blast
  then obtain fs f where
    "font_loop text_width ay_height img_height (img_width - 2 * 20)
       ([DQ] @ quote_text @ [DQ]) (''- '' @ quote_author) (min 40 (img_height div 10)) None
     = (fs, Some f)"
    by (metis not_Some_eq prod.collapse)
  then show ?thesis
    unfolding make_meme_layout_def Let_def by simp
qed

text \<open>
  C6, at the failing input: a resized image 500 wide and 100 high.  The start size is
  \<open>min(40, int(100 / 10)) = 10\<close>, the loop \<open>while font_size > 10\<close> is not entered, and
  \<open>lines = body_lines + [""] + author_lines\<close> reads a local that was never assigned:
  \<open>make_meme\<close> raises UnboundLocalError, whatever the font measures are.
\<close>

theorem make_meme_layout_short_image:
  "make_meme_layout text_width ay_height 500 100 ''Test quote'' ''Test Author'' =
     Inl (UnboundLocalError
       ''cannot access local variable body_lines where it is not associated with a value'')"
  by (simp add: make_meme_layout_def Let_def font_loop.simps)

section \<open>The data-model invariant\<close>

lemma emitted_invariant: "q \<in> set (emitted raw) \<Longrightarrow> nonempty_after_trim q"
  by (auto simp: emitted_def parse_line_def Let_def nonempty_after_trim_def strip_idem
           split: if_splits sum.splits prod.splits option.splits)

lemma parse_lines_invariant:
  "parse_lines ls [] = Inr quotes \<Longrightarrow> q \<in> set quotes \<Longrightarrow> nonempty_after_trim q"
  by (auto simp: parse_lines_concat emitted_invariant)

lemma TextIngestor_parse_invariant:
  "TextIngestor_parse fs path = Inr quotes \<Longrightarrow> q \<in> set quotes \<Longrightarrow> nonempty_after_trim q"
  by (auto simp: TextIngestor_parse_def parse_lines_concat emitted_invariant split: sum.splits)

lemma DocxIngestor_parse_invariant:
  "DocxIngestor_parse docx_import open_document path = Inr quotes \<Longrightarrow> q \<in> set quotes
   \<Longrightarrow> nonempty_after_trim q"
  by (auto simp: DocxIngestor_parse_def parse_lines_concat emitted_invariant
           split: sum.splits if_splits)

lemma PDFIngestor_parse_invariant:
  "snd (PDFIngestor_parse env fs path) = Inr quotes \<Longrightarrow> q \<in> set quotes
   \<Longrightarrow> nonempty_after_trim q"
  by (auto simp: PDFIngestor_parse_def pdf_try_def pdf_read_def Let_def parse_lines_concat
                 emitted_invariant
           split: sum.splits if_splits prod.splits option.splits)

lemma append_if_quote_append:
  "append_if_quote b a quotes = quotes @ append_if_quote b a []"
  by (simp add: append_if_quote_def Let_def)

lemma append_if_quote_invariant:
  "q \<in> set (append_if_quote b a []) \<Longrightarrow>
   nonempty_after_trim q \<and> body q \<noteq> ''nan'' \<and> author q \<noteq> ''nan''"
  by (auto simp: append_if_quote_def Let_def nonempty_after_trim_def strip_idem
           split: if_splits)

lemma named_loop_invariant:
  "named_loop cols bc ac rs acc = Inr quotes \<Longrightarrow> \<forall>q\<in>set acc. P q \<Longrightarrow>
   (\<And>b a q. q \<in> set (append_if_quote b a []) \<Longrightarrow> P q) \<Longrightarrow> \<forall>q\<in>set quotes. P q"
proof (induction rs arbitrary: acc)
  case Nil
  then show ?case by simp
next
  case (Cons row rs)
  from Cons.prems(1) obtain b a where
    "named_loop cols bc ac rs (append_if_quote b a acc) = Inr quotes"
    by (auto split: sum.splits)
  moreover have "\<forall>q\<in>set (append_if_quote b a acc). P q"
    using Cons.prems(2,3) append_if_quote_append[of b a acc] by auto
  ultimately show ?case using Cons.IH Cons.prems(3) by blast
qed

lemma positional_loop_invariant:
  "positional_loop rs acc = Inr quotes \<Longrightarrow> \<forall>q\<in>set acc. P q \<Longrightarrow>
   (\<And>b a q. q \<in> set (append_if_quote b a []) \<Longrightarrow> P q) \<Longrightarrow> \<forall>q\<in>set quotes. P q"
proof (induction rs arbitrary: acc)
  case Nil
  then show ?case by simp
next
  case (Cons row rs)
  from Cons.prems(1) obtain b a where
    "positional_loop rs (append_if_quote b a acc) = Inr quotes"
    by (auto split: sum.splits)
  moreover have "\<forall>q\<in>set (append_if_quote b a acc). P q"
    using Cons.prems(2,3) append_if_quote_append[of b a acc] by auto
  ultimately show ?case using Cons.IH Cons.prems(3) by blast
qed

lemma pandas_try_cases:
  assumes "pandas_try read_csv path = Inr quotes"
  obtains df bc ac where "read_csv path = Inr df"
      and "find_quote_columns (columns df) = Inr (bc, ac)"
      and "pandas_try read_csv path =
             (if truthy_name bc \<and> truthy_name ac
              then named_loop (columns df) (the bc) (the ac) (rows df) []
              else if 2 \<le> length (columns df) then positional_loop (rows df) []
              else Inr [])"
proof (cases "read_csv path")
  case (Inl e)
  with assms show ?thesis by (simp add: pandas_try_def)
next
  case df: (Inr df)
  show ?thesis
  proof (cases "find_quote_columns (columns df)")
    case (Inl e)
    with assms df show ?thesis by (simp add: pandas_try_def)
  next
    case (Inr pair)
    obtain bc ac where pair: "pair = (bc, ac)" by (cases pair)
    show ?thesis
      by (rule that[OF df Inr[unfolded pair]]) (simp add: pandas_try_def df Inr pair)
  qed
qed

lemma CSVIngestor_parse_pandas_Inr:
  "CSVIngestor_parse_pandas read_csv path = Inr quotes \<Longrightarrow>
   pandas_try read_csv path = Inr quotes"
  by (cases "pandas_try read_csv path") (simp_all add: CSVIngestor_parse_pandas_def)

lemma CSVIngestor_parse_pandas_all:
  assumes "CSVIngestor_parse_pandas read_csv path = Inr quotes"
    and "\<And>b a q. q \<in> set (append_if_quote b a []) \<Longrightarrow> P q"
  shows "\<forall>q\<in>set quotes. P q"
proof -
  from assms(1) have t: "pandas_try read_csv path = Inr quotes"
    by (rule CSVIngestor_parse_pandas_Inr)
  from t obtain df bc ac where
    "read_csv path = Inr df" and
    "find_quote_columns (columns df) = Inr (bc, ac)" and
    eq: "pandas_try read_csv path =
             (if truthy_name bc \<and> truthy_name ac
              then named_loop (columns df) (the bc) (the ac) (rows df) []
              else if 2 \<le> length (columns df) then positional_loop (rows df) []
              else Inr [])"
    by (rule pandas_try_cases)
  show ?thesis
  proof (cases "truthy_name bc \<and> truthy_name ac")
    case True
    with eq t have 1: "named_loop (columns df) (the bc) (the ac) (rows df) [] = Inr quotes"
      by simp
    show ?thesis using named_loop_invariant[OF 1, of P] assms(2) by simp
  next
    case False
    show ?thesis
    proof (cases "2 \<le> length (columns df)")
      case True
      with eq t False have 2: "positional_loop (rows df) [] = Inr quotes" by simp
      show ?thesis using positional_loop_invariant[OF 2, of P] assms(2) by simp
    next
      case no: False
      with eq t False have "quotes = []" by simp
      then show ?thesis by simp
    qed
  qed
qed

lemma CSVIngestor_parse_pandas_invariant:
  "CSVIngestor_parse_pandas read_csv path = Inr quotes \<Longrightarrow> q \<in> set quotes
   \<Longrightarrow> nonempty_after_trim q"
  using CSVIngestor_parse_pandas_all[of read_csv path quotes nonempty_after_trim]
    append_if_quote_invariant by blast

section \<open>The CSV ingestors\<close>

text \<open>
  C5, at the failing input: the file with header \<open>body,author\<close> and the row of a body of
  two spaces and the author Jobs.  The csv-module \<open>CSVIngestor.parse\<close> tests
  \<open>if body and author\<close> before stripping, so the row passes, and the record it appends
  has the empty body.
\<close>

theorem CSVIngestor_parse_csv_blank_body:
  "CSVIngestor_parse_csv (\<lambda>path. Inr [[''body'', ''author''], [''  '', ''Jobs'']]) ''quotes.csv''
     = Inr [\<lparr>body = [], author = ''Jobs''\<rparr>] \<and>
   \<not> nonempty_after_trim \<lparr>body = [], author = ''Jobs''\<rparr>"
  by code_simp

text \<open>
  C10.  In the pandas ingestor a row whose body cell or author cell reads \<open>nan\<close> after
  \<open>str\<close> and \<open>strip\<close> appends nothing, so no returned record has the body or the author
  \<open>nan\<close>.  In the frame of the example the first row has the word nan as its body, next
  to a non-empty author, and the second row has a missing author (NaN): both fields of
  the first row are non-empty after trimming, and only the third row is returned.
\<close>

theorem CSVIngestor_pandas_skips_nan:
  "(\<forall>b a quotes. strip (str_cell b) = ''nan'' \<or> strip (str_cell a) = ''nan''
       \<longrightarrow> append_if_quote b a quotes = quotes) \<and>
   (\<forall>quotes. CSVIngestor_parse_pandas read_csv path = Inr quotes
       \<longrightarrow> (\<forall>q\<in>set quotes. body q \<noteq> ''nan'' \<and> author q \<noteq> ''nan'')) \<and>
   strip (str_cell (Cell ''nan'')) \<noteq> [] \<and> strip (str_cell (Cell ''Marie Curie'')) \<noteq> [] \<and>
   CSVIngestor_parse_pandas
     (\<lambda>p. Inr \<lparr>columns = [''body'', ''author''],
               rows = [[Cell ''nan'', Cell ''Marie Curie''],
                       [Cell ''Stay hungry'', NaN],
                       [Cell ''Be kind'', Cell ''Someone'']]\<rparr>)
     ''quotes.csv''
     = Inr [\<lparr>body = ''Be kind'', author = ''Someone''\<rparr>]"
proof (intro conjI allI impI)
  fix b a quotes
  assume "strip (str_cell b) = ''nan'' \<or> strip (str_cell a) = ''nan''"
  then show "append_if_quote b a quotes = quotes"
    by (auto simp: append_if_quote_def Let_def)
next
  fix quotes
  assume "CSVIngestor_parse_pandas read_csv path = Inr quotes"
  then show "\<forall>q\<in>set quotes. body q \<noteq> ''nan'' \<and> author q \<noteq> ''nan''"
    using CSVIngestor_parse_pandas_all[of read_csv path quotes
            "\<lambda>q. body q \<noteq> ''nan'' \<and> author q \<noteq> ''nan''"]
      append_if_quote_invariant by blast
next
  show "strip (str_cell (Cell ''nan'')) \<noteq> []" by code_simp
  show "strip (str_cell (Cell ''Marie Curie'')) \<noteq> []" by code_simp
  show "CSVIngestor_parse_pandas
     (\<lambda>p. Inr \<lparr>columns = [''body'', ''author''],
               rows = [[Cell ''nan'', Cell ''Marie Curie''],
                       [Cell ''Stay hungry'', NaN],
                       [Cell ''Be kind'', Cell ''Someone'']]\<rparr>)
     ''quotes.csv''
     = Inr [\<lparr>body = ''Be kind'', author = ''Someone''\<rparr>]"
    by code_simp
qed

theorem CSVIngestor_pandas_skips_nan_witness:
  "strip (str_cell (Cell '' nan '')) = ''nan'' \<and>
   append_if_quote (Cell '' nan '') (Cell ''Marie Curie'') [] = [] \<and>
   CSVIngestor_parse_pandas example_read_csv ''q.csv''
     = Inr [\<lparr>body = ''Stay hungry'', author = ''Jobs''\<rparr>] \<and>
   (body \<lparr>body = ''Stay hungry'', author = ''Jobs''\<rparr> \<noteq> ''nan'')"
proof -
  have s: "strip (str_cell (Cell '' nan '')) = ''nan''" by code_simp
  note t = CSVIngestor_pandas_skips_nan[of example_read_csv "''q.csv''"]
  from t have "\<forall>b a quotes. strip (str_cell b) = ''nan'' \<or> strip (str_cell a) = ''nan''
       \<longrightarrow> append_if_quote b a quotes = quotes"
    by (rule conjunct1)
  with s have a: "append_if_quote (Cell '' nan '') (Cell ''Marie Curie'') [] = []" by blast
  have p: "CSVIngestor_parse_pandas example_read_csv ''q.csv''
     = Inr [\<lparr>body = ''Stay hungry'', author = ''Jobs''\<rparr>]"
    by code_simp
  from t have "\<forall>quotes. CSVIngestor_parse_pandas example_read_csv ''q.csv'' = Inr quotes
       \<longrightarrow> (\<forall>q\<in>set quotes. body q \<noteq> ''nan'' \<and> author q \<noteq> ''nan'')"
    by (rule conjunct1[OF conjunct2])
  with p have "body \<lparr>body = ''Stay hungry'', author = ''Jobs''\<rparr> \<noteq> ''nan''" by simp
  with s a p show ?thesis by simp
qed

section \<open>Column resolution of the CSV ingestors\<close>

lemma index_lower_Cons:
  "index_lower name (c # cs) = (if lower c = name then 0 else Suc (index_lower name cs))"
  by (simp add: index_lower_def)

lemma lower_at_index:
  "name \<in> set (map lower cols) \<Longrightarrow> lower (cols ! index_lower name cols) = name"
  by (induction cols) (auto simp: index_lower_Cons)

lemma column_named_index:
  "name \<in> set (map lower cols) \<Longrightarrow>
   column_named name cols = Inr (cols ! index_lower name cols)"
  by (induction cols) (auto simp: index_lower_Cons)

lemma row_get_named:
  "name \<in> set (map lower cols) \<Longrightarrow> length row = length cols \<Longrightarrow>
   row_get cols row (cols ! index_lower name cols) = Inr (row ! index_lower name cols)"
proof (induction cols arbitrary: row)
  case Nil
  then show ?case by simp
next
  case (Cons c cs)
  from Cons.prems(2) obtain v vs where row: "row = v # vs" and len: "length vs = length cs"
    by (cases row) auto
  show ?case
  proof (cases "lower c = name")
    case True
    then show ?thesis by (simp add: row index_lower_Cons)
  next
    case False
    with Cons.prems(1) have m: "name \<in> set (map lower cs)" by auto
    from lower_at_index[OF m] False have "c \<noteq> cs ! index_lower name cs" by auto
    with False Cons.IH[OF m len] show ?thesis by (simp add: row index_lower_Cons)
  qed
qed

lemma named_loop_eq:
  assumes "bn \<in> set (map lower cols)" "an \<in> set (map lower cols)"
    and "\<forall>row\<in>set rs. length row = length cols"
  shows "named_loop cols (cols ! index_lower bn cols) (cols ! index_lower an cols) rs acc =
     Inr (acc @ concat (map (\<lambda>row. append_if_quote (row ! index_lower bn cols)
                                      (row ! index_lower an cols) []) rs))"
  using assms(3)
proof (induction rs arbitrary: acc)
  case Nil
  then show ?case by simp
next
  case (Cons row rs)
  then have len: "length row = length cols" and rest: "\<forall>row\<in>set rs. length row = length cols"
    by simp_all
  show ?case
    using row_get_named[OF assms(1) len] row_get_named[OF assms(2) len] Cons.IH[OF rest]
      append_if_quote_append[of "row ! index_lower bn cols" "row ! index_lower an cols" acc]
    by simp
qed

lemma positional_loop_eq:
  "\<forall>row\<in>set rs. 2 \<le> length row \<Longrightarrow>
   positional_loop rs acc =
     Inr (acc @ concat (map (\<lambda>row. append_if_quote (row ! 0) (row ! 1) []) rs))"
proof (induction rs arbitrary: acc)
  case Nil
  then show ?case by simp
next
  case (Cons row rs)
  then have len: "2 \<le> length row" and rest: "\<forall>row\<in>set rs. 2 \<le> length row" by simp_all
  from len have l0: "0 < length row" and l1: "1 < length row" by auto
  show ?case
    using l0 l1 Cons.IH[OF rest] append_if_quote_append[of "row ! 0" "row ! 1" acc]
    by (simp add: iloc_def)
qed

lemma named_pair_index:
  "bn \<in> set (map lower cols) \<Longrightarrow> an \<in> set (map lower cols) \<Longrightarrow>
   named_pair bn an cols =
     Inr (Some (cols ! index_lower bn cols), Some (cols ! index_lower an cols))"
  by (simp add: named_pair_def column_named_index)

lemma lower_Nil_iff: "lower s = [] \<longleftrightarrow> s = []"
  by (simp add: lower_def)

lemma truthy_at_index:
  "name \<in> set (map lower cols) \<Longrightarrow> name \<noteq> [] \<Longrightarrow>
   truthy_name (Some (cols ! index_lower name cols))"
  using lower_at_index[of name cols] lower_Nil_iff[of "cols ! index_lower name cols"] by auto

lemma pandas_named:
  assumes "read_csv path = Inr df"
    and "find_quote_columns (columns df) = named_pair bn an (columns df)"
    and "bn \<in> set (map lower (columns df))" "an \<in> set (map lower (columns df))"
    and "bn \<noteq> []" "an \<noteq> []"
    and "\<forall>row\<in>set (rows df). length row = length (columns df)"
  shows "pandas_try read_csv path =
     Inr (concat (map (\<lambda>row. append_if_quote (row ! index_lower bn (columns df))
                                (row ! index_lower an (columns df)) []) (rows df)))"
  using assms(1) assms(2) truthy_at_index[OF assms(3) assms(5)] truthy_at_index[OF assms(4) assms(6)]
    named_loop_eq[OF assms(3) assms(4) assms(7), of "[]"]
  by (simp add: pandas_try_def named_pair_index[OF assms(3) assms(4)])

lemma pandas_try_spec:
  assumes "read_csv path = Inr df"
    and "\<forall>row\<in>set (rows df). length row = length (columns df)"
  shows "pandas_try read_csv path = Inr (spec_csv_records (columns df) (rows df))"
proof -
  define cols where "cols = columns df"
  define B where "B = (''body'' \<in> set (map lower cols))"
  define A where "A = (''author'' \<in> set (map lower cols))"
  define Q where "Q = (''quote'' \<in> set (map lower cols))"
  define S where "S = (''speaker'' \<in> set (map lower cols))"
  have fq: "find_quote_columns cols =
      (if B \<and> A then named_pair ''body'' ''author'' cols
       else if Q \<and> S then named_pair ''quote'' ''speaker'' cols
       else if B \<and> S then named_pair ''body'' ''speaker'' cols
       else if Q \<and> A then named_pair ''quote'' ''author'' cols
       else Inr (None, None))"
    unfolding find_quote_columns_def Let_def B_def A_def Q_def S_def by (rule refl)
  have sr: "spec_resolve cols =
      (if B \<and> A then Some (index_lower ''body'' cols, index_lower ''author'' cols)
       else if Q \<and> S then Some (index_lower ''quote'' cols, index_lower ''speaker'' cols)
       else if B \<and> S then Some (index_lower ''body'' cols, index_lower ''speaker'' cols)
       else if Q \<and> A then Some (index_lower ''quote'' cols, index_lower ''author'' cols)
       else if 2 \<le> length cols then Some (0, 1) else None)"
    unfolding spec_resolve_def spec_column_pairs_def B_def A_def Q_def S_def by simp
  note rowlen = assms(2)[folded cols_def]
  have named: "\<And>bn an. find_quote_columns cols = named_pair bn an cols \<Longrightarrow>
      bn \<in> set (map lower cols) \<Longrightarrow> an \<in> set (map lower cols) \<Longrightarrow> bn \<noteq> [] \<Longrightarrow> an \<noteq> [] \<Longrightarrow>
      spec_resolve cols = Some (index_lower bn cols, index_lower an cols) \<Longrightarrow>
      pandas_try read_csv path = Inr (spec_csv_records cols (rows df))"
    using pandas_named[of read_csv path df, OF assms(1) _ _ _ _ _ assms(2)]
    unfolding cols_def spec_csv_records_def by simp
  consider (ba) "B \<and> A" | (qs) "\<not> (B \<and> A)" "Q \<and> S" | (bs) "\<not> (B \<and> A)" "\<not> (Q \<and> S)" "B \<and> S"
    | (qa) "\<not> (B \<and> A)" "\<not> (Q \<and> S)" "\<not> (B \<and> S)" "Q \<and> A"
    | (none) "\<not> (B \<and> A)" "\<not> (Q \<and> S)" "\<not> (B \<and> S)" "\<not> (Q \<and> A)"
    by blast
  then have "pandas_try read_csv path = Inr (spec_csv_records cols (rows df))"
  proof cases
    case ba
    then have f: "find_quote_columns cols = named_pair ''body'' ''author'' cols"
      and r: "spec_resolve cols = Some (index_lower ''body'' cols, index_lower ''author'' cols)"
      using fq sr by auto
    from ba have m1: "''body'' \<in> set (map lower cols)" and m2: "''author'' \<in> set (map lower cols)"
      unfolding B_def A_def by simp_all
    show ?thesis by (rule named[OF f m1 m2 _ _ r]) simp_all
  next
    case qs
    then have f: "find_quote_columns cols = named_pair ''quote'' ''speaker'' cols"
      and r: "spec_resolve cols = Some (index_lower ''quote'' cols, index_lower ''speaker'' cols)"
      using fq sr by auto
    from qs have m1: "''quote'' \<in> set (map lower cols)" and m2: "''speaker'' \<in> set (map lower cols)"
      unfolding Q_def S_def by simp_all
    show ?thesis by (rule named[OF f m1 m2 _ _ r]) simp_all
  next
    case bs
    then have f: "find_quote_columns cols = named_pair ''body'' ''speaker'' cols"
      and r: "spec_resolve cols = Some (index_lower ''body'' cols, index_lower ''speaker'' cols)"
      using fq sr by auto
    from bs have m1: "''body'' \<in> set (map lower cols)" and m2: "''speaker'' \<in> set (map lower cols)"
      unfolding B_def S_def by simp_all
    show ?thesis by (rule named[OF f m1 m2 _ _ r]) simp_all
  next
    case qa
    then have f: "find_quote_columns cols = named_pair ''quote'' ''author'' cols"
      and r: "spec_resolve cols = Some (index_lower ''quote'' cols, index_lower ''author'' cols)"
      using fq sr by auto
    from qa have m1: "''quote'' \<in> set (map lower cols)" and m2: "''author'' \<in> set (map lower cols)"
      unfolding Q_def A_def by simp_all
    show ?thesis by (rule named[OF f m1 m2 _ _ r]) simp_all
  next
    case none
    then have f0: "find_quote_columns cols = Inr (None, None)"
      and r0: "spec_resolve cols = (if 2 \<le> length cols then Some (0, 1) else None)"
      using fq sr by auto
    note f = f0[unfolded cols_def]
    show ?thesis
    proof (cases "2 \<le> length cols")
      case True
      with rowlen have "\<forall>row\<in>set (rows df). 2 \<le> length row" by simp
      from positional_loop_eq[OF this, of "[]"] True r0 f assms(1)
      show ?thesis by (simp add: pandas_try_def spec_csv_records_def cols_def)
    next
      case False
      with r0 f assms(1) show ?thesis
        by (simp add: pandas_try_def spec_csv_records_def cols_def)
    qed
  qed
  then show ?thesis by (simp add: cols_def)
qed

text \<open>
  C4 (as amended).  The pandas ingestor, on a frame that \<open>read_csv\<close> returns with rows
  as long as the header, returns the records of the columns that the specification's
  rule resolves: the name pairs tried case-insensitively in the order (body, author),
  (quote, speaker), (body, speaker), (quote, author), then the first two columns.  The
  file with header \<open>quote,speaker\<close> and the row \<open>Stay hungry,Jobs\<close> yields the one record
  in the pandas ingestor and in the csv-module ingestor.
\<close>

theorem CSVIngestor_pandas_column_resolution:
  assumes "read_csv path = Inr df"
    and "\<forall>row\<in>set (rows df). length row = length (columns df)"
  shows "CSVIngestor_parse_pandas read_csv path
           = Inr (spec_csv_records (columns df) (rows df)) \<and>
         CSVIngestor_parse_pandas
           (\<lambda>p. Inr \<lparr>columns = [''quote'', ''speaker''],
                     rows = [[Cell ''Stay hungry'', Cell ''Jobs'']]\<rparr>) ''quotes.csv''
           = Inr [\<lparr>body = ''Stay hungry'', author = ''Jobs''\<rparr>] \<and>
         CSVIngestor_parse_csv
           (\<lambda>p. Inr [[''quote'', ''speaker''], [''Stay hungry'', ''Jobs'']]) ''quotes.csv''
           = Inr [\<lparr>body = ''Stay hungry'', author = ''Jobs''\<rparr>]"
proof (intro conjI)
  show "CSVIngestor_parse_pandas read_csv path = Inr (spec_csv_records (columns df) (rows df))"
    using pandas_try_spec[of read_csv path df, OF assms] by (simp add: CSVIngestor_parse_pandas_def)
  show "CSVIngestor_parse_pandas
           (\<lambda>p. Inr \<lparr>columns = [''quote'', ''speaker''],
                     rows = [[Cell ''Stay hungry'', Cell ''Jobs'']]\<rparr>) ''quotes.csv''
           = Inr [\<lparr>body = ''Stay hungry'', author = ''Jobs''\<rparr>]"
    by code_simp
  show "CSVIngestor_parse_csv
           (\<lambda>p. Inr [[''quote'', ''speaker''], [''Stay hungry'', ''Jobs'']]) ''quotes.csv''
           = Inr [\<lparr>body = ''Stay hungry'', author = ''Jobs''\<rparr>]"
    by code_simp
qed

theorem CSVIngestor_pandas_column_resolution_witness:
  "example_frame_reader ''q.csv'' = Inr example_frame \<and>
   list_all (\<lambda>row. length row = length (columns example_frame)) (rows example_frame) \<and>
   spec_resolve (columns example_frame) = Some (2, 1) \<and>
   CSVIngestor_parse_pandas example_frame_reader ''q.csv''
     = Inr [\<lparr>body = ''Stay hungry'', author = ''Jobs''\<rparr>]"
proof -
  have h1: "example_frame_reader ''q.csv'' = Inr example_frame"
    by (simp add: example_frame_reader_def)
  have la: "list_all (\<lambda>row. length row = length (columns example_frame)) (rows example_frame)"
    by (simp add: example_frame_def)
  then have h2: "\<forall>row\<in>set (rows example_frame). length row = length (columns example_frame)"
    by (simp add: list_all_iff)
  have sr: "spec_resolve (columns example_frame) = Some (2, 1)" by code_simp
  have ev: "spec_csv_records (columns example_frame) (rows example_frame)
              = [\<lparr>body = ''Stay hungry'', author = ''Jobs''\<rparr>]"
    by code_simp
  from CSVIngestor_pandas_column_resolution[of example_frame_reader "''q.csv''" example_frame,
         OF h1 h2]
  have "CSVIngestor_parse_pandas example_frame_reader ''q.csv''
          = Inr (spec_csv_records (columns example_frame) (rows example_frame))"
    by (rule conjunct1)
  with ev h1 la sr show ?thesis by simp
qed

text \<open>
  C4 as stated fails on the csv-module ingestor, which looks a row up under the keys
  body, quote, Body, Quote and author, speaker, Author, Speaker only: with the header
  \<open>x,BODY,AUTHOR\<close> it finds no named value and takes the first two fields, where the
  case-insensitive rule takes the columns BODY and AUTHOR.
\<close>

theorem csv_module_resolution_counterexample:
  "CSVIngestor_parse_csv (\<lambda>p. Inr [[''x'', ''BODY'', ''AUTHOR''], [''1'', ''b'', ''a'']]) ''q.csv''
     = Inr [\<lparr>body = ''1'', author = ''b''\<rparr>] \<and>
   spec_csv_records [''x'', ''BODY'', ''AUTHOR''] [[Cell ''1'', Cell ''b'', Cell ''a'']]
     = [\<lparr>body = ''b'', author = ''a''\<rparr>]"
  by code_simp

section \<open>Word wrap\<close>

lemma wrap_loop_from:
  "current \<noteq> [] \<Longrightarrow>
   wrap_loop width max_w ws lines current =
     lines @ map (join '' '') (wrap_from width max_w ws current)"
  by (induction ws arbitrary: lines current) (simp_all add: Let_def)

lemma wrap_text_from:
  "wrap_text width s max_w =
     (case py_split s of
        [] \<Rightarrow> []
      | w # ws \<Rightarrow> map (join '' '') (wrap_from width max_w ws [w]))"
  by (cases "py_split s") (simp_all add: wrap_text_def Let_def wrap_loop_from)

lemma wrap_from_concat: "concat (wrap_from width max_w ws current) = current @ ws"
  by (induction ws arbitrary: current) simp_all

lemma wrap_from_nonempty:
  "current \<noteq> [] \<Longrightarrow> [] \<notin> set (wrap_from width max_w ws current)"
  by (induction ws arbitrary: current) auto

lemma wrap_from_hd:
  "\<exists>rest gs. wrap_from width max_w ws current = (current @ rest) # gs"
proof (induction ws arbitrary: current)
  case Nil
  then show ?case by simp
next
  case (Cons w ws)
  show ?case
  proof (cases "width (join '' '' (current @ [w])) \<le> max_w")
    case True
    from Cons[of "current @ [w]"] obtain rest gs where
      "wrap_from width max_w ws (current @ [w]) = ((current @ [w]) @ rest) # gs" by blast
    with True have "wrap_from width max_w (w # ws) current = (current @ (w # rest)) # gs"
      by simp
    then show ?thesis by blast
  next
    case False
    then have "wrap_from width max_w (w # ws) current
                 = (current @ []) # wrap_from width max_w ws [w]" by simp
    then show ?thesis by blast
  qed
qed

lemma wrap_from_fits:
  "(2 \<le> length current \<longrightarrow> width (join '' '' current) \<le> max_w) \<Longrightarrow>
   g \<in> set (wrap_from width max_w ws current) \<Longrightarrow> 2 \<le> length g \<Longrightarrow>
   width (join '' '' g) \<le> max_w"
proof (induction ws arbitrary: current)
  case Nil
  then show ?case by simp
next
  case (Cons w ws)
  show ?case
  proof (cases "width (join '' '' (current @ [w])) \<le> max_w")
    case True
    with Cons.prems(2) have "g \<in> set (wrap_from width max_w ws (current @ [w]))" by simp
    from Cons.IH[OF _ this Cons.prems(3)] True show ?thesis by simp
  next
    case False
    with Cons.prems(2) consider "g = current" | "g \<in> set (wrap_from width max_w ws [w])"
      by auto
    then show ?thesis
    proof cases
      case 1
      with Cons.prems(1,3) show ?thesis by simp
    next
      case 2
      from Cons.IH[OF _ 2 Cons.prems(3)] show ?thesis by simp
    qed
  qed
qed

lemma wrap_from_greedy:
  "Suc i < length (wrap_from width max_w ws current) \<Longrightarrow>
   max_w < width (join '' '' (wrap_from width max_w ws current ! i
                               @ [hd (wrap_from width max_w ws current ! Suc i)]))"
proof (induction ws arbitrary: current i)
  case Nil
  then show ?case by simp
next
  case (Cons w ws)
  show ?case
  proof (cases "width (join '' '' (current @ [w])) \<le> max_w")
    case True
    with Cons.prems have "Suc i < length (wrap_from width max_w ws (current @ [w]))" by simp
    from Cons.IH[OF this] True show ?thesis by simp
  next
    case False
    then have eq: "wrap_from width max_w (w # ws) current = current # wrap_from width max_w ws [w]"
      by simp
    obtain rest gs where hd: "wrap_from width max_w ws [w] = ([w] @ rest) # gs"
      using wrap_from_hd by blast
    show ?thesis
    proof (cases i)
      case 0
      with False hd show ?thesis unfolding eq by simp
    next
      case (Suc j)
      with Cons.prems have "Suc j < length (wrap_from width max_w ws [w])" unfolding eq by simp
      from Cons.IH[OF this] Suc show ?thesis unfolding eq by simp
    qed
  qed
qed

lemma join_length: "w \<in> set g \<Longrightarrow> length w \<le> length (join sep g)"
  by (induction sep g rule: join.induct) auto

lemma example_width_mono:
  "w \<in> set g \<Longrightarrow> example_width w \<le> example_width (join sep g)"
  by (simp add: example_width_def join_length)

text \<open>
  C7.  The lines of \<open>wrap_text\<close> are the words of the input (\<open>s.split()\<close>), in order,
  cut into non-empty groups and joined by single spaces: no word is dropped, repeated
  or split.  A line of two words or more is within the maximum width, and a line
  followed by another could not take the next line's first word without exceeding it.
  A word wider than the maximum width, under a width measure for which a line is at
  least as wide as each of its words, is alone on its line.
\<close>

theorem wrap_text_greedy:
  "\<exists>groups. wrap_text width s max_w = map (join '' '') groups \<and>
     concat groups = py_split s \<and>
     [] \<notin> set groups \<and>
     (\<forall>g\<in>set groups. 2 \<le> length g \<longrightarrow> width (join '' '' g) \<le> max_w) \<and>
     (\<forall>i. Suc i < length groups \<longrightarrow>
          max_w < width (join '' '' (groups ! i @ [hd (groups ! Suc i)]))) \<and>
     (\<forall>w. max_w < width w \<and> (\<forall>g. w \<in> set g \<longrightarrow> width w \<le> width (join '' '' g)) \<longrightarrow>
          (\<forall>g\<in>set groups. w \<in> set g \<longrightarrow> g = [w]))"
proof -
  define groups where
    "groups = (case py_split s of [] \<Rightarrow> [] | w # ws \<Rightarrow> wrap_from width max_w ws [w])"
  have lines: "wrap_text width s max_w = map (join '' '') groups"
    unfolding groups_def wrap_text_from by (simp split: list.splits)
  have words: "concat groups = py_split s"
    unfolding groups_def by (simp add: wrap_from_concat split: list.splits)
  have ne: "[] \<notin> set groups"
    unfolding groups_def by (simp add: wrap_from_nonempty split: list.splits)
  have fits: "\<forall>g\<in>set groups. 2 \<le> length g \<longrightarrow> width (join '' '' g) \<le> max_w"
  proof (cases "py_split s")
    case Nil
    then show ?thesis by (simp add: groups_def)
  next
    case (Cons w ws)
    then have "groups = wrap_from width max_w ws [w]" by (simp add: groups_def)
    then show ?thesis using wrap_from_fits[of "[w]" width max_w _ ws] by simp
  qed
  have greedy: "\<forall>i. Suc i < length groups \<longrightarrow>
          max_w < width (join '' '' (groups ! i @ [hd (groups ! Suc i)]))"
  proof (cases "py_split s")
    case Nil
    then show ?thesis by (simp add: groups_def)
  next
    case (Cons w ws)
    then have "groups = wrap_from width max_w ws [w]" by (simp add: groups_def)
    then show ?thesis using wrap_from_greedy[of _ width max_w ws "[w]"] by simp
  qed
  have alone: "\<forall>w. max_w < width w \<and> (\<forall>g. w \<in> set g \<longrightarrow> width w \<le> width (join '' '' g)) \<longrightarrow>
          (\<forall>g\<in>set groups. w \<in> set g \<longrightarrow> g = [w])"
  proof (intro allI impI ballI)
    fix w g
    assume a: "max_w < width w \<and> (\<forall>g. w \<in> set g \<longrightarrow> width w \<le> width (join '' '' g))"
      and g: "g \<in> set groups" and w: "w \<in> set g"
    from a w have "max_w < width (join '' '' g)" by fastforce
    with fits g have "\<not> 2 \<le> length g" by fastforce
    moreover from w have "g \<noteq> []" by auto
    ultimately obtain x where "g = [x]" by (cases g) (auto simp: Suc_le_eq)
    with w show "g = [w]" by simp
  qed
  from lines words ne fits greedy alone show ?thesis by blast
qed

theorem wrap_text_greedy_witness:
  "50 < example_width ''cccccccccccc'' \<and>
   py_split ''aa bb  cccccccccccc dd e f'' = [''aa'', ''bb'', ''cccccccccccc'', ''dd'', ''e'', ''f''] \<and>
   wrap_text example_width ''aa bb  cccccccccccc dd e f'' 50
     = [''aa bb'', ''cccccccccccc'', ''dd e'', ''f''] \<and>
   (\<exists>groups. map (join '' '') groups = [''aa bb'', ''cccccccccccc'', ''dd e'', ''f''] \<and>
      concat groups = [''aa'', ''bb'', ''cccccccccccc'', ''dd'', ''e'', ''f''] \<and>
      list_all (\<lambda>g. ''cccccccccccc'' \<notin> set g \<or> g = [''cccccccccccc'']) groups)"
proof -
  let ?s = "''aa bb  cccccccccccc dd e f''"
  let ?w = "''cccccccccccc''"
  have wide: "50 < example_width ?w" by (simp add: example_width_def)
  have mono: "\<forall>g. ?w \<in> set g \<longrightarrow> example_width ?w \<le> example_width (join '' '' g)"
    using example_width_mono by blast
  have sp: "py_split ?s = [''aa'', ''bb'', ?w, ''dd'', ''e'', ''f'']" by code_simp
  have ev: "wrap_text example_width ?s 50 = [''aa bb'', ?w, ''dd e'', ''f'']" by code_simp
  from wrap_text_greedy[of example_width ?s 50] obtain groups where
    l: "wrap_text example_width ?s 50 = map (join '' '') groups" and
    c: "concat groups = py_split ?s" and
    a: "\<forall>w. 50 < example_width w \<and>
            (\<forall>g. w \<in> set g \<longrightarrow> example_width w \<le> example_width (join '' '' g)) \<longrightarrow>
          (\<forall>g\<in>set groups. w \<in> set g \<longrightarrow> g = [w])"
    by blast
  from a wide mono have "\<forall>g\<in>set groups. ?w \<in> set g \<longrightarrow> g = [?w]" by blast
  then have "list_all (\<lambda>g. ?w \<notin> set g \<or> g = [?w]) groups"
    by (auto simp: list_all_iff)
  with l c ev sp have "map (join '' '') groups = [''aa bb'', ?w, ''dd e'', ''f''] \<and>
      concat groups = [''aa'', ''bb'', ?w, ''dd'', ''e'', ''f''] \<and>
      list_all (\<lambda>g. ?w \<notin> set g \<or> g = [?w]) groups"
    by simp
  then have ex: "\<exists>groups. map (join '' '') groups = [''aa bb'', ?w, ''dd e'', ''f''] \<and>
      concat groups = [''aa'', ''bb'', ?w, ''dd'', ''e'', ''f''] \<and>
      list_all (\<lambda>g. ?w \<notin> set g \<or> g = [?w]) groups"
    by (rule exI)
  show ?thesis by (rule conjI[OF wide conjI[OF sp conjI[OF ev ex]]])
qed

section \<open>Round trip of the display form\<close>

lemma translate_newlines_id: "CR \<notin> set t \<Longrightarrow> translate_newlines t = t"
  by (induction t rule: translate_newlines.induct) auto

lemma keep_lines_no_LF: "LF \<notin> set l \<Longrightarrow> l \<noteq> [] \<Longrightarrow> keep_lines l = [l]"
proof (induction l)
  case Nil
  then show ?case by simp
next
  case (Cons c l)
  then show ?case by (cases l) auto
qed

lemma keep_lines_line:
  "LF \<notin> set l \<Longrightarrow> keep_lines (l @ LF # rest) = (l @ [LF]) # keep_lines rest"
  by (induction l) auto

lemma strip_with_snoc: "P c \<Longrightarrow> strip_with P (l @ [c]) = strip_with P l"
proof (cases "\<forall>x\<in>set l. P x")
  case True
  assume c: "P c"
  from True have 1: "dropWhile P l = []" by (simp only: dropWhile_eq_Nil_conv)
  from True c have "\<forall>x\<in>set (l @ [c]). P x" by simp
  then have 2: "dropWhile P (l @ [c]) = []" by (simp only: dropWhile_eq_Nil_conv)
  show ?thesis unfolding strip_with_def 1 2 by (rule refl)
next
  case False
  assume c: "P c"
  from False obtain x where "x \<in> set l" "\<not> P x" by blast
  then have "dropWhile P (l @ [c]) = dropWhile P l @ [c]"
    by (rule dropWhile_append1)
  with c show ?thesis by (simp add: strip_with_def)
qed

lemma isspace_LF: "isspace LF"
  by code_simp

lemma strip_line: "strip (l @ [LF]) = strip l"
  by (simp add: strip_def strip_with_snoc isspace_LF)

lemma parse_line_strip: "parse_line (strip raw) = parse_line raw"
  by (simp add: parse_line_def strip_idem)

lemma emitted_strip: "emitted (strip raw) = emitted raw"
  by (simp add: emitted_def parse_line_strip)

lemma emitted_map_strip: "concat (map emitted (map strip ls)) = concat (map emitted ls)"
  by (induction ls) (simp_all add: emitted_strip)

lemma lines_of_join:
  "\<forall>l\<in>set ls. LF \<notin> set l \<and> l \<noteq> [] \<Longrightarrow>
   map strip (keep_lines (join [LF] ls)) = map strip ls"
proof (induction "[LF]" ls rule: join.induct)
  case 1
  then show ?case by simp
next
  case (2 p)
  then show ?case by (simp add: keep_lines_no_LF)
next
  case (3 p q ps)
  then show ?case by (simp add: keep_lines_line strip_line)
qed

lemma lines_of_concat:
  "\<forall>l\<in>set ls. LF \<notin> set l \<Longrightarrow>
   map strip (keep_lines (concat (map (\<lambda>l. l @ [LF]) ls))) = map strip ls"
  by (induction ls) (simp_all add: keep_lines_line strip_line)

lemma set_join: "set (join sep ls) \<subseteq> set sep \<union> \<Union> (set ` set ls)"
  by (induction sep ls rule: join.induct) auto

lemma rfind_bound: "rfind sub s = Some i \<Longrightarrow> i + length sub \<le> length s"
proof (induction s arbitrary: i)
  case Nil
  then show ?case by (auto split: if_splits)
next
  case (Cons c cs)
  show ?case
  proof (cases "rfind sub cs")
    case None
    with Cons.prems have sw: "startswith (c # cs) sub" and i: "i = 0"
      by (auto split: if_splits)
    from sw obtain q where "c # cs = sub @ q" by (auto simp: startswith_iff)
    then have "length (c # cs) = length sub + length q" by (metis length_append)
    with i show ?thesis by simp
  next
    case (Some j)
    with Cons.prems have "i = Suc j" by simp
    with Cons.IH[OF Some] show ?thesis by simp
  qed
qed

lemma rfind_last_occurrence:
  assumes "s = p @ sub @ q"
    and "\<And>p' q'. s = p' @ sub @ q' \<Longrightarrow> length p' \<le> length p"
  shows "rfind sub s = Some (length p)"
proof -
  from assms(1) have "contains sub s" by (auto simp: contains_iff)
  then obtain i where i: "rfind sub s = Some i"
    using rfind_None_iff by (cases "rfind sub s") auto
  from rfind_Some_last[OF i assms(1)] have 1: "length p \<le> i" .
  from rfind_bound[OF i] have "i \<le> length s" by simp
  then have "length (take i s) = i" by simp
  with assms(2)[OF rfind_Some_occ[OF i]] have "i \<le> length p" by simp
  with 1 i show ?thesis by simp
qed

lemma later_occurrence:
  "s = p' @ sub @ q' \<Longrightarrow> n < length p' \<Longrightarrow> contains sub (drop (Suc n) s)"
proof -
  assume s: "s = p' @ sub @ q'" and n: "n < length p'"
  then have "drop (Suc n) s = drop (Suc n) p' @ sub @ q'" by simp
  then show ?thesis unfolding contains_iff by blast
qed

lemma strip_with_core:
  assumes "\<forall>c\<in>set pre. P c" "\<forall>c\<in>set suf. P c" "b \<noteq> []" "\<not> P (hd b)" "\<not> P (last b)"
  shows "strip_with P (pre @ b @ suf) = b"
proof -
  obtain x xs where b: "b = x # xs" using assms(3) by (cases b) auto
  with assms(4) have x: "\<not> P x" by simp
  have 1: "dropWhile P (pre @ b @ suf) = b @ suf"
    using assms(1) x unfolding b by (simp add: dropWhile_append2)
  obtain y ys where rb: "rev b = y # ys" using assms(3) by (cases "rev b") auto
  then have "last b = y" by (metis last_rev list.sel(1) rev_rev_ident hd_rev)
  with assms(5) have y: "\<not> P y" by simp
  have "\<forall>c\<in>set (rev suf). P c" using assms(2) by simp
  then have 2: "dropWhile P (rev suf @ rev b) = rev b"
    using y unfolding rb by (subst dropWhile_append2) auto
  show ?thesis unfolding strip_with_def 1 by (simp add: 2)
qed

lemma strip_fixed_ends:
  "s \<noteq> [] \<Longrightarrow> strip s = s \<Longrightarrow> \<not> isspace (hd s) \<and> \<not> isspace (last s)"
  using strip_with_ends[of isspace s] by (simp add: strip_def)

lemma isspace_space: "isspace (CHR '' '')"
  by code_simp

lemma not_isspace_DQ: "\<not> isspace DQ"
  by code_simp

lemma well_formed_line:
  assumes "well_formed q"
  shows "emitted (str_quote q) = [q]"
proof -
  define b where "b = body q"
  define a where "a = author q"
  define l where "l = [DQ] @ b @ [DQ] @ '' - '' @ a"
  from assms have b: "b \<noteq> []" "strip b = b" "hd b \<noteq> DQ" "last b \<noteq> DQ"
    and a: "a \<noteq> []" "strip a = a" "\<not> contains '' - '' ('' '' @ a)"
    unfolding well_formed_def spec_well_formed_def b_def a_def by simp_all
  have l: "str_quote q = l" by (simp add: str_quote_def l_def b_def a_def)
  have q: "q = \<lparr>body = b, author = a\<rparr>" by (simp add: b_def a_def)
  have bsp: "\<not> isspace (hd b)" "\<not> isspace (last b)"
    using strip_fixed_ends[OF b(1) b(2)] by simp_all
  have asp: "\<not> isspace (hd a)" "\<not> isspace (last a)"
    using strip_fixed_ends[OF a(1) a(2)] by simp_all
  have lne: "l \<noteq> []" by (simp add: l_def)
  have "hd l = DQ" by (simp add: l_def)
  moreover have "last l = last a" using a(1) by (simp add: l_def)
  ultimately have sl: "strip l = l"
    unfolding strip_def using strip_with_id[of l isspace] lne asp(2) not_isspace_DQ by simp
  have hy: "CHR ''-'' \<in> set l" by (simp add: l_def)
  have occ: "l = ([DQ] @ b @ [DQ]) @ '' - '' @ a" by (simp add: l_def)
  then have c: "contains '' - '' l" unfolding contains_iff by blast
  have nolater: "\<And>p' q'. l = p' @ '' - '' @ q' \<Longrightarrow> length p' \<le> length ([DQ] @ b @ [DQ])"
  proof (rule ccontr)
    fix p' q' assume e: "l = p' @ '' - '' @ q'" and "\<not> length p' \<le> length ([DQ] @ b @ [DQ])"
    then have "length ([DQ] @ b @ [DQ]) < length p'" by simp
    from later_occurrence[OF e this]
    have "contains '' - '' (drop (Suc (length ([DQ] @ b @ [DQ]))) l)" .
    moreover have "drop (Suc (length ([DQ] @ b @ [DQ]))) l = ''- '' @ a"
      by (simp add: l_def)
    ultimately have "contains '' - '' (''- '' @ a)" by simp
    then have "contains '' - '' ('' '' @ a)" by (simp add: startswith_def)
    with a(3) show False by simp
  qed
  have rf: "rfind '' - '' l = Some (length ([DQ] @ b @ [DQ]))"
    by (rule rfind_last_occurrence[OF occ nolater])
  have tk: "take (length ([DQ] @ b @ [DQ])) l = [DQ] @ b @ [DQ]"
    and dr: "drop (length ([DQ] @ b @ [DQ]) + length '' - '') l = a"
    by (simp_all add: l_def)
  have u: "unpack2 (split_author l) = Inr ([DQ] @ b @ [DQ], a)"
    unfolding split_author_def rsplit1_def unpack2_def using c rf tk dr
    by (simp del: contains.simps rfind.simps)
  have "\<not> (hd b = CHR '' '' \<or> hd b = DQ)" "\<not> (last b = CHR '' '' \<or> last b = DQ)"
    using bsp b(3,4) isspace_space by auto
  then have sc: "strip_chars [CHR '' '', DQ] ([DQ] @ b @ [DQ]) = b"
    unfolding strip_chars_def
    using strip_with_core[of "[DQ]" "\<lambda>c. c \<in> set [CHR '' '', DQ]" "[DQ]" b] b(1) by simp
  have "parse_line l = Inr (Some \<lparr>body = b, author = a\<rparr>)"
    unfolding parse_line_def Let_def sl u using lne hy sc b(1,2) a(1,2) by simp
  then have "emitted (str_quote q) = [\<lparr>body = b, author = a\<rparr>]"
    unfolding emitted_def l by simp
  then show ?thesis using q by simp
qed

lemma well_formed_no_breaks:
  "well_formed q \<Longrightarrow> LF \<notin> set (str_quote q) \<and> CR \<notin> set (str_quote q) \<and> str_quote q \<noteq> []"
  by (simp add: well_formed_def spec_well_formed_def str_quote_def LF_def CR_def DQ_def)

lemma emitted_display_lines:
  "\<forall>q\<in>set qs. well_formed q \<Longrightarrow> concat (map emitted (map str_quote qs)) = qs"
  by (induction qs) (simp_all add: well_formed_line)

lemma CR_not_LF: "CR \<noteq> LF"
  by (simp add: CR_def LF_def)

lemma display_lines_facts:
  assumes "\<forall>q\<in>set qs. well_formed q"
  shows "\<forall>l\<in>set (map str_quote qs). LF \<notin> set l \<and> l \<noteq> []"
    and "\<forall>l\<in>set (map str_quote qs). CR \<notin> set l"
  using assms well_formed_no_breaks by auto

lemma emitted_of_lines:
  assumes "\<forall>q\<in>set qs. well_formed q"
    and "map strip ls = map strip (map str_quote qs)"
  shows "concat (map emitted ls) = qs"
proof -
  have "concat (map emitted ls) = concat (map emitted (map strip ls))"
    by (simp only: emitted_map_strip)
  also have "\<dots> = concat (map emitted (map str_quote qs))"
    unfolding assms(2) by (simp only: emitted_map_strip)
  also have "\<dots> = qs" using assms(1) by (rule emitted_display_lines)
  finally show ?thesis .
qed

text \<open>
  C3 (as amended).  For a list of well-formed quotes whose bodies neither begin nor end
  with a double quote, the file made of their display forms \<open>"<body>" - <author>\<close>, one
  a line (joined by newlines, or each ended by one), is parsed back by
  \<open>TextIngestor.parse\<close> into exactly that list: as many records, the same bodies and
  authors, in order.
\<close>

theorem TextIngestor_round_trip:
  assumes "\<forall>q\<in>set qs. well_formed q"
    and "fs path = Inr text"
    and "text = join [LF] (map str_quote qs) \<or>
         text = concat (map (\<lambda>q. str_quote q @ [LF]) qs)"
  shows "TextIngestor_parse fs path = Inr qs"
proof -
  let ?ls = "map str_quote qs"
  note f = display_lines_facts[OF assms(1)]
  have strip_lines: "map strip (file_lines text) = map strip ?ls"
    using assms(3)
  proof
    assume t: "text = join [LF] ?ls"
    have "set text \<subseteq> set [LF] \<union> \<Union> (set ` set ?ls)" unfolding t by (rule set_join)
    with f(2) CR_not_LF have "CR \<notin> set text" by auto
    then have "file_lines text = keep_lines text"
      by (simp add: file_lines_def translate_newlines_id)
    then show ?thesis unfolding t using lines_of_join[OF f(1)] by simp
  next
    assume t: "text = concat (map (\<lambda>q. str_quote q @ [LF]) qs)"
    then have t': "text = concat (map (\<lambda>l. l @ [LF]) ?ls)" by (simp add: comp_def)
    from f(2) CR_not_LF have "CR \<notin> set text" unfolding t' by auto
    then have "file_lines text = keep_lines text"
      by (simp add: file_lines_def translate_newlines_id)
    moreover from f(1) have "\<forall>l\<in>set ?ls. LF \<notin> set l" by simp
    ultimately show ?thesis unfolding t' using lines_of_concat[of ?ls] by simp
  qed
  have "TextIngestor_parse fs path = Inr (concat (map emitted (file_lines text)))"
    using assms(2) by (rule TextIngestor_parse_ok)
  also have "concat (map emitted (file_lines text)) = qs"
    using assms(1) strip_lines by (rule emitted_of_lines)
  finally show ?thesis .
qed

theorem TextIngestor_round_trip_witness:
  "list_all well_formed example_quotes \<and>
   example_display_fs ''quotes.txt'' = Inr (join [LF] (map str_quote example_quotes)) \<and>
   str_quote (example_quotes ! 1) = [DQ] @ ''Stay hungry - stay foolish'' @ [DQ] @ '' - Steve Jobs'' \<and>
   TextIngestor_parse example_display_fs ''quotes.txt''
     = Inr [\<lparr>body = ''To be or not to be'', author = ''Shakespeare''\<rparr>,
            \<lparr>body = ''Stay hungry - stay foolish'', author = ''Steve Jobs''\<rparr>]"
proof -
  have wf: "list_all well_formed example_quotes" by code_simp
  then have h1: "\<forall>q\<in>set example_quotes. well_formed q" by (simp add: list_all_iff)
  have h2: "example_display_fs ''quotes.txt'' = Inr (join [LF] (map str_quote example_quotes))"
    by (simp add: example_display_fs_def)
  have sq: "str_quote (example_quotes ! 1)
              = [DQ] @ ''Stay hungry - stay foolish'' @ [DQ] @ '' - Steve Jobs''"
    by (simp add: example_quotes_def str_quote_def)
  from TextIngestor_round_trip[of example_quotes example_display_fs "''quotes.txt''"
         "join [LF] (map str_quote example_quotes)", OF h1 h2]
  have "TextIngestor_parse example_display_fs ''quotes.txt'' = Inr example_quotes" by simp
  then have p: "TextIngestor_parse example_display_fs ''quotes.txt''
     = Inr [\<lparr>body = ''To be or not to be'', author = ''Shakespeare''\<rparr>,
            \<lparr>body = ''Stay hungry - stay foolish'', author = ''Steve Jobs''\<rparr>]"
    by (simp add: example_quotes_def)
  show ?thesis by (rule conjI[OF wf conjI[OF h2 conjI[OF sq p]]])
qed

text \<open>
  C3 as stated fails on a well-formed quote whose body begins with a double quote: the
  body \<open>"Hi" he said\<close> is displayed as \<open>""Hi" he said" - Someone\<close>, and the parser,
  removing both leading quotes, returns the body \<open>Hi" he said\<close>.  Removing one layer of
  enclosing quotes, as the specification words it, gives the body back.
\<close>

theorem quoted_body_round_trip_counterexample:
  "spec_well_formed quoted_word_quote \<and>
   quoted_word_fs ''quotes.txt'' = Inr (str_quote quoted_word_quote) \<and>
   TextIngestor_parse quoted_word_fs ''quotes.txt''
     = Inr [\<lparr>body = ''Hi'' @ [DQ] @ '' he said'', author = ''Someone''\<rparr>] \<and>
   TextIngestor_parse quoted_word_fs ''quotes.txt'' \<noteq> Inr [quoted_word_quote] \<and>
   spec_line_record (str_quote quoted_word_quote) = [quoted_word_quote]"
  by code_simp

end
